theory Spec2Isabelle
  imports Complex_Main "HOL-Library.Word" "HOL-Library.Signed_Division"
begin

section \<open>Data model (swp.go, swp_gen.go)\<close>

text \<open>
  Go's \<open>int64\<close> is a 64-bit word: \<open>+\<close> and \<open>-\<close> wrap around, comparisons are the
  signed ones (\<open><s\<close>, \<open>\<le>s\<close>) and \<open>sint\<close> reads the two's complement value.
  \<open>type Seqno int64\<close>.
\<close>

type_synonym int64 = "64 word"
type_synonym Seqno = "64 word"
type_synonym byte = "8 word"

text \<open>
  A \<open>time.Time\<close> as the codec carries it: seconds and nanoseconds.
\<close>

datatype Time = Time (unix_sec: int64) (unix_nsec: "32 word")

text \<open>
  \<open>Packet\<close> with the 18 fields that \<open>MarshalMsg\<close> writes and \<open>UnmarshalMsg\<close> reads, in the
  order of the encoding. A \<open>*Packet\<close> that may be nil is a \<open>Packet option\<close>.
\<close>

record Packet =
  From :: string
  Dest :: string
  ArrivedAtDestTm :: Time
  DataSendTm :: Time
  SeqNum :: Seqno
  SeqRetry :: int64
  AckNum :: Seqno
  AckRetry :: int64
  AckReplyTm :: Time
  AckOnly :: bool
  KeepAlive :: bool
  AvailReaderBytesCap :: int64
  AvailReaderMsgCap :: int64
  FromRttEstNsec :: int64
  FromRttSdNsec :: int64
  FromRttN :: int64
  CumulBytesTransmitted :: int64
  Data :: "byte list"

text \<open>The zero value of \<open>Packet\<close>: what a composite literal leaves in the fields it omits.\<close>

definition zero_Packet :: Packet where
  "zero_Packet =
     \<lparr>From = [], Dest = [], ArrivedAtDestTm = Time 0 0, DataSendTm = Time 0 0,
      SeqNum = 0, SeqRetry = 0, AckNum = 0, AckRetry = 0, AckReplyTm = Time 0 0,
      AckOnly = False, KeepAlive = False, AvailReaderBytesCap = 0, AvailReaderMsgCap = 0,
      FromRttEstNsec = 0, FromRttSdNsec = 0, FromRttN = 0, CumulBytesTransmitted = 0,
      Data = []\<rparr>"

text \<open>\<open>RxqSlot\<close> is the receiver's sliding window element.\<close>

record RxqSlot =
  Received :: bool
  Pack :: "Packet option"

definition empty_slot :: RxqSlot where
  "empty_slot = \<lparr>Received = False, Pack = None\<rparr>"

text \<open>\<open>InWindow\<close> returns true iff seqno is in [min, max] (signed comparison).\<close>

definition InWindow :: "Seqno \<Rightarrow> Seqno \<Rightarrow> Seqno \<Rightarrow> bool" where
  "InWindow seqno mn mx = (if seqno <s mn then False else if mx <s seqno then False else True)"

section \<open>The receiver (RecvState)\<close>

text \<open>
  The fields of \<open>RecvState\<close> that the receive loop reads or writes. The network handle,
  the mutex, the timeout and the channels are not state of the window; what the loop
  sends on a channel or passes to the sender is recorded as an effect below.
  \<open>asapHelper\<close> holds the identity of the registered helper, \<open>None\<close> for nil.
\<close>

record RecvState =
  Inbox :: string
  NextFrameExpected :: Seqno
  Rxq :: "RxqSlot list"
  RecvWindowSize :: Seqno
  RecvWindowSizeBytes :: int64
  RecvHistory :: "Packet option list"
  RecvSz :: int64
  DiscardCount :: int64
  LastMsgConsumed :: Seqno
  LargestSeqnoRcvd :: Seqno
  MaxCumulBytesTrans :: int64
  LastByteConsumed :: int64
  LastAvailReaderBytesCap :: int64
  LastAvailReaderMsgCap :: int64
  RcvdButNotConsumed :: "Seqno \<rightharpoonup> Packet"
  ReadyForDelivery :: "Packet option list"
  AsapOn :: bool
  asapHelper :: "nat option"

text \<open>\<open>AckStatus\<close>, as the receiver fills it for the sender's \<open>GotAck\<close> channel.\<close>

record AckStatus =
  OnlyUpdateFlowCtrl :: bool
  as_AckNum :: Seqno
  AckCameWithPacket :: Seqno
  as_AvailReaderBytesCap :: int64
  as_AvailReaderMsgCap :: int64

text \<open>
  What one turn of the receive loop does to the outside:
  the call \<open>r.snd.FlowCt.UpdateFlow(who, net, msgCap, bytesCap)\<close>,
  a send on \<open>r.snd.GotAck\<close>, a send on \<open>r.snd.SendAck\<close>, a packet offered to the ASAP
  helper, a stopped helper, the answer on \<open>NumHeldMessages\<close>, and the batch handed
  over on \<open>ReadMessagesCh\<close>.
\<close>

datatype effect =
    FlowUpdate string int64 int64
  | GotAck AckStatus
  | SendAck Packet
  | AsapEnqueue Packet
  | AsapStopped nat
  | HeldCount int64
  | Delivered "Packet option list"

text \<open>
  How the loop ends instead of going on: one of the two panics of the receiver, a
  run-time panic of Go (index out of range, integer divide by zero, nil dereference,
  \<open>make\<close> with a negative length), the shutdown branch of a \<open>select\<close>, or
  \<open>NotEnabled\<close> for a \<open>select\<close> case that cannot fire in this state.
\<close>

datatype halt =
    PanicCumulBelowMax
  | PanicCumulOrder
  | PanicIndexOutOfRange
  | PanicDivideByZero
  | PanicNilPacket
  | PanicMakeSlice
  | Stopped
  | NotEnabled

text \<open>
  \<open>NewRecvState\<close>: \<open>make([]*RxqSlot, recvSz)\<close> panics on a negative length; every slot
  is then set to a fresh \<open>&RxqSlot{}\<close>.
\<close>

definition NewRecvState :: "int64 \<Rightarrow> int64 \<Rightarrow> string \<Rightarrow> halt + RecvState" where
  "NewRecvState recvSz recvSzBytes inbox =
     (if recvSz <s 0 then Inl PanicMakeSlice
      else Inr \<lparr>Inbox = inbox, NextFrameExpected = 0,
                Rxq = replicate (nat (sint recvSz)) empty_slot,
                RecvWindowSize = recvSz, RecvWindowSizeBytes = recvSzBytes,
                RecvHistory = [], RecvSz = recvSz, DiscardCount = 0,
                LastMsgConsumed = - 1, LargestSeqnoRcvd = - 1,
                MaxCumulBytesTrans = 0, LastByteConsumed = - 1,
                LastAvailReaderBytesCap = 0, LastAvailReaderMsgCap = 0,
                RcvdButNotConsumed = Map.empty, ReadyForDelivery = [],
                AsapOn = False, asapHelper = None\<rparr>)"

text \<open>
  \<open>UpdateFlowControl\<close>: the advertised window, then the call of \<open>FlowCt.UpdateFlow\<close>
  with the two new values.
\<close>

definition UpdateFlowControl :: "RecvState \<Rightarrow> RecvState \<times> effect list" where
  "UpdateFlowControl r =
     (let r1 = r\<lparr>LastAvailReaderMsgCap :=
                    RecvWindowSize r - (LargestSeqnoRcvd r - LastMsgConsumed r)\<rparr>;
          r2 = r1\<lparr>LastAvailReaderBytesCap :=
                    RecvWindowSizeBytes r1 - (MaxCumulBytesTrans r1 - (LastByteConsumed r1 + 1))\<rparr>
      in (r2, [FlowUpdate (Inbox r2 @ '':recver'')
                 (LastAvailReaderMsgCap r2) (LastAvailReaderBytesCap r2)]))"

text \<open>\<open>ack\<close>: refresh the flow control, then send the ack-only packet on \<open>SendAck\<close>.\<close>

definition ack :: "RecvState \<Rightarrow> Seqno \<Rightarrow> string \<Rightarrow> RecvState \<times> effect list" where
  "ack r seqno dest =
     (let (r1, fx) = UpdateFlowControl r
      in (r1, fx @ [SendAck (zero_Packet\<lparr>From := Inbox r1, Dest := dest, SeqNum := - 99,
                                AckNum := seqno, AckOnly := True,
                                AvailReaderBytesCap := LastAvailReaderBytesCap r1,
                                AvailReaderMsgCap := LastAvailReaderMsgCap r1\<rparr>)]))"

text \<open>
  The high-water marks and the two assertions on \<open>CumulBytesTransmitted\<close>: the first
  inside the branch that moves the marks, the second after it, on every packet.
\<close>

definition update_marks :: "RecvState \<Rightarrow> Packet \<Rightarrow> halt + RecvState" where
  "update_marks r pack =
     (case (if LargestSeqnoRcvd r <s SeqNum pack then
              (if CumulBytesTransmitted pack <s MaxCumulBytesTrans r
               then Inl PanicCumulBelowMax
               else Inr (r\<lparr>LargestSeqnoRcvd := SeqNum pack,
                           MaxCumulBytesTrans := CumulBytesTransmitted pack\<rparr>))
            else Inr r) of
        Inl e \<Rightarrow> Inl e
      | Inr r1 \<Rightarrow>
          if MaxCumulBytesTrans r1 <s CumulBytesTransmitted pack then Inl PanicCumulOrder
          else Inr r1)"

text \<open>
  \<open>r.Rxq[seqno % r.RecvWindowSize]\<close>: Go's \<open>%\<close> truncates towards zero (\<open>smod\<close>), panics
  on a zero divisor, and the index panics when it is negative or not below \<open>len(r.Rxq)\<close>.
\<close>

definition rxq_index :: "RecvState \<Rightarrow> Seqno \<Rightarrow> halt + nat" where
  "rxq_index r seqno =
     (if RecvWindowSize r = 0 then Inl PanicDivideByZero
      else let k = sint seqno smod sint (RecvWindowSize r)
           in if 0 \<le> k \<and> k < int (length (Rxq r)) then Inr (nat k)
              else Inl PanicIndexOutOfRange)"

text \<open>
  The body of the loop \<open>for slot.Received { ... }\<close>, for the slot at index \<open>i\<close>: the
  slot's packet is appended to \<open>ReadyForDelivery\<close> and to \<open>RecvHistory\<close>, the slot is
  cleared and \<open>NextFrameExpected\<close> is incremented.
\<close>

definition deliver_slot :: "RecvState \<Rightarrow> nat \<Rightarrow> RecvState" where
  "deliver_slot r i =
     r\<lparr>ReadyForDelivery := ReadyForDelivery r @ [Pack (Rxq r ! i)],
       RecvHistory := RecvHistory r @ [Pack (Rxq r ! i)],
       Rxq := (Rxq r)[i := \<lparr>Received = False, Pack = None\<rparr>],
       NextFrameExpected := NextFrameExpected r + 1\<rparr>"

text \<open>
  The loop: \<open>i\<close> is the index of the slot that \<open>slot\<close> points to (always one that
  \<open>rxq_index\<close> returned, hence in range); after the body, \<open>slot\<close> is fetched again for the
  new \<open>NextFrameExpected\<close>. Every turn clears a received slot, which is why the loop
  ends.
\<close>

function deliver_loop :: "RecvState \<Rightarrow> nat \<Rightarrow> halt + RecvState" where
  "deliver_loop r i =
     (if i < length (Rxq r) \<and> Received (Rxq r ! i) then
        (case rxq_index (deliver_slot r i) (NextFrameExpected (deliver_slot r i)) of
           Inl e \<Rightarrow> Inl e
         | Inr j \<Rightarrow> deliver_loop (deliver_slot r i) j)
      else Inr r)"
  by pat_completeness auto

termination deliver_loop
proof (relation "measure (\<lambda>(r, i). length (filter Received (Rxq r)))")
  show "wf (measure (\<lambda>(r, i). length (filter Received (Rxq r))))" by simp
next
  fix r :: RecvState and i :: nat and j :: nat
  assume a: "i < length (Rxq r) \<and> Received (Rxq r ! i)"
  have clr: "k < length xs \<Longrightarrow> Received (xs ! k) \<Longrightarrow>
      length (filter Received (xs[k := \<lparr>Received = False, Pack = None\<rparr>]))
        < length (filter Received xs)" for xs :: "RxqSlot list" and k
  proof (induction xs arbitrary: k)
    case Nil
    then show ?case by simp
  next
    case (Cons x xs)
    then show ?case by (cases k) (fastforce simp: less_Suc_eq_le Suc_le_eq)+
  qed
  from a clr [of i "Rxq r"]
  show "((deliver_slot r i, j), (r, i)) \<in> measure (\<lambda>(r, i). length (filter Received (Rxq r)))"
    by (simp add: deliver_slot_def)
qed

text \<open>
  The steps of the data branch: \<open>hold\<close> enters the packet in \<open>RcvdButNotConsumed\<close> unless
  it is an old duplicate, \<open>discard\<close> counts a packet outside the window and acks the
  current cumulative value, \<open>store\<close> puts the packet in its slot.
\<close>

definition hold :: "RecvState \<Rightarrow> Packet \<Rightarrow> RecvState" where
  "hold r pack =
     (if NextFrameExpected r \<le>s SeqNum pack
      then r\<lparr>RcvdButNotConsumed := (RcvdButNotConsumed r)(SeqNum pack \<mapsto> pack)\<rparr>
      else r)"

definition discard :: "RecvState \<Rightarrow> Packet \<Rightarrow> RecvState \<times> effect list" where
  "discard r pack =
     ack (r\<lparr>DiscardCount := DiscardCount r + 1\<rparr>) (NextFrameExpected r - 1) (From pack)"

definition store :: "RecvState \<Rightarrow> nat \<Rightarrow> Packet \<Rightarrow> RecvState" where
  "store r i pack = r\<lparr>Rxq := (Rxq r)[i := \<lparr>Received = True, Pack = Some pack\<rparr>]\<rparr>"

text \<open>
  The data branch of the loop, after the keep-alive test. The slot is fetched before the
  window test, as in the source; when the packet is the next frame expected the ring is
  walked and the new cumulative ack is sent.
\<close>

definition accept_data :: "RecvState \<Rightarrow> Packet \<Rightarrow> halt + RecvState \<times> effect list" where
  "accept_data r pack =
     (let r1 = hold r pack
      in case rxq_index r1 (SeqNum pack) of
           Inl e \<Rightarrow> Inl e
         | Inr i \<Rightarrow>
             if \<not> InWindow (SeqNum pack) (NextFrameExpected r1)
                    (NextFrameExpected r1 + RecvWindowSize r1 - 1)
             then Inr (discard r1 pack)
             else
               (let r2 = store r1 i pack
                in if SeqNum pack = NextFrameExpected r2
                   then (case deliver_loop r2 i of
                           Inl e \<Rightarrow> Inl e
                         | Inr r3 \<Rightarrow> Inr (ack r3 (NextFrameExpected r3 - 1) (From pack)))
                   else Inr (r2, [])))"

text \<open>
  The two inner \<open>select\<close> statements of the packet case. Which branch fires is the
  scheduler's choice, so it is an input: the offer to the ASAP helper is taken, times out
  after 300 ms, or loses to \<open>ReqStop\<close>; the send on \<open>GotAck\<close> goes through or loses to
  \<open>ReqStop\<close>.
\<close>

datatype asap_choice = AsapEnqueued | AsapTimedOut | AsapStop

datatype gotack_choice = GotAckSent | GotAckStop

definition offer_asap :: "RecvState \<Rightarrow> Packet \<Rightarrow> asap_choice \<Rightarrow> halt + effect list" where
  "offer_asap r pack ac =
     (if AsapOn r \<and> asapHelper r \<noteq> None then
        (case ac of
           AsapEnqueued \<Rightarrow> Inr [AsapEnqueue pack]
         | AsapTimedOut \<Rightarrow> Inr []
         | AsapStop \<Rightarrow> Inl Stopped)
      else Inr [])"

text \<open>The case \<open>pack := <-r.MsgRecv\<close> of the receive loop.\<close>

definition on_packet ::
  "RecvState \<Rightarrow> Packet \<Rightarrow> asap_choice \<Rightarrow> gotack_choice \<Rightarrow> halt + RecvState \<times> effect list" where
  "on_packet r pack ac gc =
     (case offer_asap r pack ac of
        Inl e \<Rightarrow> Inl e
      | Inr fx0 \<Rightarrow>
          (case update_marks r pack of
             Inl e \<Rightarrow> Inl e
           | Inr r1 \<Rightarrow>
               (let (r2, fx1) = UpdateFlowControl r1;
                    as = \<lparr>OnlyUpdateFlowCtrl = \<not> AckOnly pack, as_AckNum = AckNum pack,
                          AckCameWithPacket = SeqNum pack,
                          as_AvailReaderBytesCap = AvailReaderBytesCap pack,
                          as_AvailReaderMsgCap = AvailReaderMsgCap pack\<rparr>
                in case gc of
                     GotAckStop \<Rightarrow> Inl Stopped
                   | GotAckSent \<Rightarrow>
                       (let fx = fx0 @ fx1 @ [GotAck as]
                        in if AckOnly pack then Inr (r2, fx)
                           else if KeepAlive pack then
                             (let (r3, fx3) = ack r2 (NextFrameExpected r2 - 1) (From pack)
                              in Inr (r3, fx @ fx3))
                           else (case accept_data r2 pack of
                                   Inl e \<Rightarrow> Inl e
                                 | Inr (r3, fx3) \<Rightarrow> Inr (r3, fx @ fx3))))))"

text \<open>
  The case \<open>deliverToConsumer <- delivery\<close>: the loop over the batch deletes every
  packet from \<open>RcvdButNotConsumed\<close> and moves \<open>LastMsgConsumed\<close>; a nil element would
  panic on \<open>pack.SeqNum\<close>.
\<close>

fun consume :: "RecvState \<Rightarrow> Packet option list \<Rightarrow> halt + RecvState" where
  "consume r [] = Inr r"
| "consume r (None # ps) = Inl PanicNilPacket"
| "consume r (Some pack # ps) =
     consume (r\<lparr>RcvdButNotConsumed := (RcvdButNotConsumed r)(SeqNum pack := None),
                LastMsgConsumed := SeqNum pack\<rparr>) ps"

text \<open>
  The channel \<open>deliverToConsumer\<close> is nil unless \<open>ReadyForDelivery\<close> is non-empty, so the
  case cannot fire on an empty batch. After the loop, \<open>LastByteConsumed\<close> is computed
  from \<open>delivery.Seq[0]\<close> and the buffer is truncated.
\<close>

definition deliver_to_consumer :: "RecvState \<Rightarrow> halt + RecvState \<times> effect list" where
  "deliver_to_consumer r =
     (case ReadyForDelivery r of
        [] \<Rightarrow> Inl NotEnabled
      | None # _ \<Rightarrow> Inl PanicNilPacket
      | Some first # _ \<Rightarrow>
          (case consume r (ReadyForDelivery r) of
             Inl e \<Rightarrow> Inl e
           | Inr r1 \<Rightarrow>
               Inr (r1\<lparr>LastByteConsumed :=
                          CumulBytesTransmitted first - of_nat (length (Data first)),
                        ReadyForDelivery := []\<rparr>,
                    [Delivered (ReadyForDelivery r)])))"

text \<open>One turn of \<open>recvloop\<close>: the event says which case of the outer \<open>select\<close> fires.\<close>

datatype event =
    SetAsapHelper "nat option"
  | HeldQuery
  | Deliver
  | ReqStop
  | MsgRecv Packet asap_choice gotack_choice

fun recvloop :: "RecvState \<Rightarrow> event \<Rightarrow> halt + RecvState \<times> effect list" where
  "recvloop r (SetAsapHelper helper) =
     Inr (r\<lparr>asapHelper := helper, AsapOn := (if helper \<noteq> None then True else AsapOn r)\<rparr>,
          (case asapHelper r of None \<Rightarrow> [] | Some old \<Rightarrow> [AsapStopped old]))"
| "recvloop r HeldQuery = Inr (r, [HeldCount (of_nat (card (dom (RcvdButNotConsumed r))))])"
| "recvloop r Deliver = deliver_to_consumer r"
| "recvloop r ReqStop = Inl Stopped"
| "recvloop r (MsgRecv pack ac gc) = on_packet r pack ac gc"

text \<open>The loop over a sequence of events; a panic or the shutdown ends it.\<close>

fun run :: "RecvState \<Rightarrow> event list \<Rightarrow> halt + RecvState \<times> effect list" where
  "run r [] = Inr (r, [])"
| "run r (e # es) =
     (case recvloop r e of
        Inl h \<Rightarrow> Inl h
      | Inr (r1, fx) \<Rightarrow>
          (case run r1 es of
             Inl h \<Rightarrow> Inl h
           | Inr (r2, fx2) \<Rightarrow> Inr (r2, fx @ fx2)))"

text \<open>The ack packets among the effects, in the order they were sent.\<close>

fun acks_sent :: "effect list \<Rightarrow> Packet list" where
  "acks_sent [] = []"
| "acks_sent (SendAck p # fx) = p # acks_sent fx"
| "acks_sent (_ # fx) = acks_sent fx"

text \<open>The packets handed to the consumer, batch after batch.\<close>

fun delivered :: "effect list \<Rightarrow> Packet option list" where
  "delivered [] = []"
| "delivered (Delivered ps # fx) = ps @ delivered fx"
| "delivered (_ # fx) = delivered fx"

text \<open>
  The invariant of the ring: there are as many slots as the window has, and a slot that
  is marked received holds a packet whose sequence number lies in the window
  \<open>[NextFrameExpected, NextFrameExpected + RecvWindowSize - 1]\<close> and is the one that
  \<open>%\<close> maps to this slot.
\<close>

definition ring_ok :: "RecvState \<Rightarrow> bool" where
  "ring_ok r =
     (0 \<le> sint (RecvWindowSize r) \<and> length (Rxq r) = nat (sint (RecvWindowSize r)) \<and>
      (\<forall>j < length (Rxq r). Received (Rxq r ! j) \<longrightarrow>
         (\<exists>p. Pack (Rxq r ! j) = Some p
              \<and> sint (NextFrameExpected r) \<le> sint (SeqNum p)
              \<and> sint (SeqNum p) < sint (NextFrameExpected r) + sint (RecvWindowSize r)
              \<and> sint (SeqNum p) smod sint (RecvWindowSize r) = int j)))"

text \<open>
  The invariant of the history: entry \<open>i\<close> carries sequence number \<open>i\<close>, and the next
  frame expected is the length of the history.
\<close>

definition hist_ok :: "RecvState \<Rightarrow> bool" where
  "hist_ok r =
     (NextFrameExpected r = of_nat (length (RecvHistory r)) \<and>
      (\<forall>i < length (RecvHistory r).
         \<exists>p. RecvHistory r ! i = Some p \<and> SeqNum p = of_nat i))"

text \<open>
  The packets that a sequence of events brings in, in their order of arrival, and the
  requirement on a stream of packets, each given by its \<open>SeqNum\<close> and its
  \<open>CumulBytesTransmitted\<close>: the byte count does not decrease with the sequence number.
\<close>

fun packets_of :: "event list \<Rightarrow> Packet list" where
  "packets_of [] = []"
| "packets_of (MsgRecv pack ac gc # evs) = pack # packets_of evs"
| "packets_of (_ # evs) = packets_of evs"

definition marks_of :: "Packet \<Rightarrow> Seqno \<times> int64" where
  "marks_of pack = (SeqNum pack, CumulBytesTransmitted pack)"

definition cumul_nondecreasing :: "(Seqno \<times> int64) list \<Rightarrow> bool" where
  "cumul_nondecreasing xs =
     (\<forall>(s, c) \<in> set xs. \<forall>(s', c') \<in> set xs. s \<le>s s' \<longrightarrow> c \<le>s c')"

section \<open>Session.Push (swp.go)\<close>

text \<open>
  \<open>var ErrShutdown = fmt.Errorf("shutting down")\<close>, and the error of \<open>SimNet.Send\<close> for
  an unknown destination.
\<close>

datatype error = ErrShutdown | ErrUnknownNode string

text \<open>
  \<open>Push\<close> is one \<open>select\<close> over the send on \<open>Sender.BlockingSend\<close> and the receive from
  \<open>Sender.ReqStop\<close>. A branch can fire when the sender is ready to take the packet,
  respectively when \<open>ReqStop\<close> is closed; when both can, the scheduler picks; when none
  can, \<open>Push\<close> blocks (\<open>None\<close>). \<open>Push\<close> has no result parameter: \<open>returned\<close> is what the
  caller gets back, nil in every branch.
\<close>

datatype push_choice = BlockingSendTaken | ReqStopSeen

record push_outcome =
  admitted :: "Packet option"
  returned :: "error option"

definition Push :: "bool \<Rightarrow> bool \<Rightarrow> push_choice \<Rightarrow> Packet \<Rightarrow> push_outcome option" where
  "Push sender_ready stopping pick pack =
     (if sender_ready \<and> stopping then
        (case pick of
           BlockingSendTaken \<Rightarrow> Some \<lparr>admitted = Some pack, returned = None\<rparr>
         | ReqStopSeen \<Rightarrow> Some \<lparr>admitted = None, returned = None\<rparr>)
      else if sender_ready then Some \<lparr>admitted = Some pack, returned = None\<rparr>
      else if stopping then Some \<lparr>admitted = None, returned = None\<rparr>
      else None)"

section \<open>The network simulator (simnet.go)\<close>

text \<open>
  A channel is known by its identity. \<open>LossProb\<close> is a \<open>float64\<close>, read here as the real
  number it denotes; \<open>Latency\<close> is a \<open>time.Duration\<close>, an \<open>int64\<close> of nanoseconds.
\<close>

record SimNet =
  Net :: "string \<rightharpoonup> nat"
  LossProb :: real
  Latency :: int64
  TotalSent :: "string \<rightharpoonup> int64"
  TotalRcvd :: "string \<rightharpoonup> int64"
  DiscardOnce :: Seqno
  SimulateReorderNext :: int64
  heldBack :: "Packet option"
  DuplicateNext :: bool

definition NewSimNet :: "real \<Rightarrow> int64 \<Rightarrow> SimNet" where
  "NewSimNet lossProb latency =
     \<lparr>Net = Map.empty, LossProb = lossProb, Latency = latency,
      TotalSent = Map.empty, TotalRcvd = Map.empty, DiscardOnce = - 1,
      SimulateReorderNext = 0, heldBack = None, DuplicateNext = False\<rparr>"

text \<open>\<open>Listen\<close>: \<open>ch\<close> is the channel that \<open>make\<close> returns; the error is always nil.\<close>

definition Listen :: "SimNet \<Rightarrow> string \<Rightarrow> nat \<Rightarrow> SimNet \<times> nat \<times> error option" where
  "Listen sim inbox ch = (sim\<lparr>Net := (Net sim)(inbox \<mapsto> ch)\<rparr>, ch, None)"

text \<open>
  \<open>cryptoProb\<close>, from the eight random bytes read as an \<open>int\<close>: the negation wraps, \<open>%\<close>
  truncates, and the quotient by \<open>resolution\<close> is exact in a \<open>float64\<close>.
\<close>

definition resolution :: int where
  "resolution = 2 ^ 20"

definition cryptoProb :: "int64 \<Rightarrow> real" where
  "cryptoProb b =
     (let r = (if b <s 0 then - b else b);
          r' = sint r smod (resolution + 1)
      in real_of_int r' / real_of_int resolution)"

text \<open>\<open>m[k]++\<close> on a Go map: a missing key counts as 0.\<close>

definition incr :: "(string \<rightharpoonup> int64) \<Rightarrow> string \<Rightarrow> (string \<rightharpoonup> int64)" where
  "incr m k = m(k \<mapsto> (case m k of None \<Rightarrow> 0 | Some v \<Rightarrow> v) + 1)"

text \<open>
  \<open>Send\<close> returns the error, and the model gives with it the simulator afterwards and
  the goroutines \<open>sendWithLatency(ch, pack, lat)\<close> it started, in order. \<open>rnd\<close> are the
  random bytes that \<open>cryptoProb\<close> draws.
\<close>

definition Send ::
  "SimNet \<Rightarrow> Packet \<Rightarrow> string \<Rightarrow> int64 \<Rightarrow> error option \<times> SimNet \<times> (nat \<times> Packet \<times> int64) list" where
  "Send sim pack why rnd =
     (let sim1 = sim\<lparr>TotalSent := incr (TotalSent sim) (From pack)\<rparr>
      in case Net sim1 (Dest pack) of
           None \<Rightarrow> (Some (ErrUnknownNode (Dest pack)), sim1, [])
         | Some ch \<Rightarrow>
             if SimulateReorderNext sim1 = 1 then
               (None, sim1\<lparr>heldBack := Some pack,
                           SimulateReorderNext := SimulateReorderNext sim1 + 1\<rparr>, [])
             else
               (let sim2 = (if SimulateReorderNext sim1 = 0 then sim1
                            else sim1\<lparr>SimulateReorderNext := 0\<rparr>)
                in if SeqNum pack = DiscardOnce sim2 then
                     (None, sim2\<lparr>DiscardOnce := - 1\<rparr>, [])
                   else
                     (let pr = cryptoProb rnd;
                          isLost = (pr \<le> LossProb sim2)
                      in if 0 < LossProb sim2 \<and> isLost then (None, sim2, [])
                         else
                           (let held = (case heldBack sim2 of
                                          None \<Rightarrow> []
                                        | Some h \<Rightarrow> [(ch, h, Latency sim2 + 20 * 1000000)]);
                                dup = (if DuplicateNext sim2 then [(ch, pack, Latency sim2)]
                                       else [])
                            in (None,
                                sim2\<lparr>heldBack := None, DuplicateNext := False\<rparr>,
                                [(ch, pack, Latency sim2)] @ held @ dup)))))"

text \<open>
  A use of the simulator: a sequence of \<open>Listen\<close> and \<open>Send\<close> calls and of
  assignments to the exported fields that the tests set (\<open>DiscardOnce\<close>,
  \<open>SimulateReorderNext\<close>, \<open>DuplicateNext\<close>, \<open>LossProb\<close>, \<open>Latency\<close>) on a new \<open>SimNet\<close>.
  \<open>listened\<close> collects the inboxes for which \<open>Listen\<close> was called.
\<close>

datatype sim_op =
    DoListen string nat
  | DoSend Packet string int64
  | SetDiscardOnce Seqno
  | SetSimulateReorderNext int64
  | SetDuplicateNext bool
  | SetLossProb real
  | SetLatency int64

fun sim_run :: "SimNet \<Rightarrow> sim_op list \<Rightarrow> SimNet" where
  "sim_run sim [] = sim"
| "sim_run sim (DoListen inbox ch # ops) = sim_run (fst (Listen sim inbox ch)) ops"
| "sim_run sim (DoSend pack why rnd # ops) = sim_run (fst (snd (Send sim pack why rnd))) ops"
| "sim_run sim (SetDiscardOnce s # ops) = sim_run (sim\<lparr>DiscardOnce := s\<rparr>) ops"
| "sim_run sim (SetSimulateReorderNext n # ops) =
     sim_run (sim\<lparr>SimulateReorderNext := n\<rparr>) ops"
| "sim_run sim (SetDuplicateNext d # ops) = sim_run (sim\<lparr>DuplicateNext := d\<rparr>) ops"
| "sim_run sim (SetLossProb p # ops) = sim_run (sim\<lparr>LossProb := p\<rparr>) ops"
| "sim_run sim (SetLatency l # ops) = sim_run (sim\<lparr>Latency := l\<rparr>) ops"

fun listened :: "sim_op list \<Rightarrow> string set" where
  "listened [] = {}"
| "listened (DoListen inbox ch # ops) = insert inbox (listened ops)"
| "listened (_ # ops) = listened ops"

section \<open>The codec of Packet (swp_gen.go)\<close>

text \<open>
  \<open>MarshalMsg\<close> and \<open>UnmarshalMsg\<close> are generated code over the library
  \<open>github.com/tinylib/msgp\<close>, which is not part of this repository. Its primitives are
  taken as a parameter \<open>L\<close>: for each kind of value the bytes that the \<open>Append\<close> function
  of the library appends to a slice, and the \<open>Read\<close> functions, which return the value
  and the rest of the input, or an error. A Go \<open>string\<close> is its bytes; a \<open>time.Time\<close> is
  the instant that the encoding carries.
\<close>

type_synonym bytes = "byte list"

record 'e msgp =
  string_enc :: "string \<Rightarrow> bytes"
  time_enc :: "Time \<Rightarrow> bytes"
  int64_enc :: "int64 \<Rightarrow> bytes"
  bool_enc :: "bool \<Rightarrow> bytes"
  bytes_enc :: "bytes \<Rightarrow> bytes"
  ReadStringBytes :: "bytes \<Rightarrow> 'e + string \<times> bytes"
  ReadTimeBytes :: "bytes \<Rightarrow> 'e + Time \<times> bytes"
  ReadInt64Bytes :: "bytes \<Rightarrow> 'e + int64 \<times> bytes"
  ReadBoolBytes :: "bytes \<Rightarrow> 'e + bool \<times> bytes"
  ReadBytesBytes :: "bytes \<Rightarrow> 'e + bytes \<times> bytes"
  ReadMapHeaderBytes :: "bytes \<Rightarrow> 'e + 32 word \<times> bytes"
  ReadMapKeyZC :: "bytes \<Rightarrow> 'e + bytes \<times> bytes"
  Skip :: "bytes \<Rightarrow> 'e + bytes"

definition AppendString :: "'e msgp \<Rightarrow> bytes \<Rightarrow> string \<Rightarrow> bytes" where
  "AppendString L b s = b @ string_enc L s"

definition AppendTime :: "'e msgp \<Rightarrow> bytes \<Rightarrow> Time \<Rightarrow> bytes" where
  "AppendTime L b t = b @ time_enc L t"

definition AppendInt64 :: "'e msgp \<Rightarrow> bytes \<Rightarrow> int64 \<Rightarrow> bytes" where
  "AppendInt64 L b n = b @ int64_enc L n"

definition AppendBool :: "'e msgp \<Rightarrow> bytes \<Rightarrow> bool \<Rightarrow> bytes" where
  "AppendBool L b v = b @ bool_enc L v"

definition AppendBytes :: "'e msgp \<Rightarrow> bytes \<Rightarrow> bytes \<Rightarrow> bytes" where
  "AppendBytes L b d = b @ bytes_enc L d"

text \<open>
  \<open>msgp.Require(b, z.Msgsize())\<close> returns \<open>b\<close> with room for the message: the contents,
  which is all that the model keeps of a slice, are those of \<open>b\<close>.
\<close>

definition Require :: "bytes \<Rightarrow> bytes" where
  "Require b = b"

text \<open>\<open>msgp.UnsafeString\<close> reads the bytes of the key as a string.\<close>

definition UnsafeString :: "bytes \<Rightarrow> string" where
  "UnsafeString field = map (\<lambda>b. char_of (unat b)) field"

text \<open>
  \<open>MarshalMsg\<close>: the map header for 18 entries, then for each field its name, as the
  literal bytes of the source, and its value. The error it returns is always nil.
\<close>

definition MarshalMsg :: "'e msgp \<Rightarrow> Packet \<Rightarrow> bytes \<Rightarrow> bytes" where
  "MarshalMsg L z b =
     (let b0 = Require b;
          b1 = b0 @ [0xde, 0x0, 0x12, 0xa4, 0x46, 0x72, 0x6f, 0x6d];
          b2 = AppendString L b1 (From z);
          b3 = b2 @ [0xa4, 0x44, 0x65, 0x73, 0x74];
          b4 = AppendString L b3 (Dest z);
          b5 = b4 @ [0xaf, 0x41, 0x72, 0x72, 0x69, 0x76, 0x65, 0x64, 0x41, 0x74, 0x44, 0x65,
                0x73, 0x74, 0x54, 0x6d];
          b6 = AppendTime L b5 (ArrivedAtDestTm z);
          b7 = b6 @ [0xaa, 0x44, 0x61, 0x74, 0x61, 0x53, 0x65, 0x6e, 0x64, 0x54, 0x6d];
          b8 = AppendTime L b7 (DataSendTm z);
          b9 = b8 @ [0xa6, 0x53, 0x65, 0x71, 0x4e, 0x75, 0x6d];
          b10 = AppendInt64 L b9 (SeqNum z);
          b11 = b10 @ [0xa8, 0x53, 0x65, 0x71, 0x52, 0x65, 0x74, 0x72, 0x79];
          b12 = AppendInt64 L b11 (SeqRetry z);
          b13 = b12 @ [0xa6, 0x41, 0x63, 0x6b, 0x4e, 0x75, 0x6d];
          b14 = AppendInt64 L b13 (AckNum z);
          b15 = b14 @ [0xa8, 0x41, 0x63, 0x6b, 0x52, 0x65, 0x74, 0x72, 0x79];
          b16 = AppendInt64 L b15 (AckRetry z);
          b17 = b16 @ [0xaa, 0x41, 0x63, 0x6b, 0x52, 0x65, 0x70, 0x6c, 0x79, 0x54, 0x6d];
          b18 = AppendTime L b17 (AckReplyTm z);
          b19 = b18 @ [0xa7, 0x41, 0x63, 0x6b, 0x4f, 0x6e, 0x6c, 0x79];
          b20 = AppendBool L b19 (AckOnly z);
          b21 = b20 @ [0xa9, 0x4b, 0x65, 0x65, 0x70, 0x41, 0x6c, 0x69, 0x76, 0x65];
          b22 = AppendBool L b21 (KeepAlive z);
          b23 = b22 @ [0xb3, 0x41, 0x76, 0x61, 0x69, 0x6c, 0x52, 0x65, 0x61, 0x64, 0x65,
                0x72, 0x42, 0x79, 0x74, 0x65, 0x73, 0x43, 0x61, 0x70];
          b24 = AppendInt64 L b23 (AvailReaderBytesCap z);
          b25 = b24 @ [0xb1, 0x41, 0x76, 0x61, 0x69, 0x6c, 0x52, 0x65, 0x61, 0x64, 0x65,
                0x72, 0x4d, 0x73, 0x67, 0x43, 0x61, 0x70];
          b26 = AppendInt64 L b25 (AvailReaderMsgCap z);
          b27 = b26 @ [0xae, 0x46, 0x72, 0x6f, 0x6d, 0x52, 0x74, 0x74, 0x45, 0x73, 0x74,
                0x4e, 0x73, 0x65, 0x63];
          b28 = AppendInt64 L b27 (FromRttEstNsec z);
          b29 = b28 @ [0xad, 0x46, 0x72, 0x6f, 0x6d, 0x52, 0x74, 0x74, 0x53, 0x64, 0x4e,
                0x73, 0x65, 0x63];
          b30 = AppendInt64 L b29 (FromRttSdNsec z);
          b31 = b30 @ [0xa8, 0x46, 0x72, 0x6f, 0x6d, 0x52, 0x74, 0x74, 0x4e];
          b32 = AppendInt64 L b31 (FromRttN z);
          b33 = b32 @ [0xb5, 0x43, 0x75, 0x6d, 0x75, 0x6c, 0x42, 0x79, 0x74, 0x65, 0x73,
                0x54, 0x72, 0x61, 0x6e, 0x73, 0x6d, 0x69, 0x74, 0x74, 0x65, 0x64];
          b34 = AppendInt64 L b33 (CumulBytesTransmitted z);
          b35 = b34 @ [0xa4, 0x44, 0x61, 0x74, 0x61];
          b36 = AppendBytes L b35 (Data z)
      in b36)"


text \<open>
  The \<open>switch\<close> on the name of a field in \<open>UnmarshalMsg\<close>: a known name reads the value
  into its field, any other name skips one value.
\<close>

definition unmarshal_field ::
  "'e msgp \<Rightarrow> string \<Rightarrow> Packet \<Rightarrow> bytes \<Rightarrow> 'e + Packet \<times> bytes" where
  "unmarshal_field L name z bts =
     (if name = ''From'' then
        (case ReadStringBytes L bts of Inl e \<Rightarrow> Inl e
         | Inr (v, rest) \<Rightarrow> Inr (z\<lparr>From := v\<rparr>, rest))
      else if name = ''Dest'' then
        (case ReadStringBytes L bts of Inl e \<Rightarrow> Inl e
         | Inr (v, rest) \<Rightarrow> Inr (z\<lparr>Dest := v\<rparr>, rest))
      else if name = ''ArrivedAtDestTm'' then
        (case ReadTimeBytes L bts of Inl e \<Rightarrow> Inl e
         | Inr (v, rest) \<Rightarrow> Inr (z\<lparr>ArrivedAtDestTm := v\<rparr>, rest))
      else if name = ''DataSendTm'' then
        (case ReadTimeBytes L bts of Inl e \<Rightarrow> Inl e
         | Inr (v, rest) \<Rightarrow> Inr (z\<lparr>DataSendTm := v\<rparr>, rest))
      else if name = ''SeqNum'' then
        (case ReadInt64Bytes L bts of Inl e \<Rightarrow> Inl e
         | Inr (v, rest) \<Rightarrow> Inr (z\<lparr>SeqNum := v\<rparr>, rest))
      else if name = ''SeqRetry'' then
        (case ReadInt64Bytes L bts of Inl e \<Rightarrow> Inl e
         | Inr (v, rest) \<Rightarrow> Inr (z\<lparr>SeqRetry := v\<rparr>, rest))
      else if name = ''AckNum'' then
        (case ReadInt64Bytes L bts of Inl e \<Rightarrow> Inl e
         | Inr (v, rest) \<Rightarrow> Inr (z\<lparr>AckNum := v\<rparr>, rest))
      else if name = ''AckRetry'' then
        (case ReadInt64Bytes L bts of Inl e \<Rightarrow> Inl e
         | Inr (v, rest) \<Rightarrow> Inr (z\<lparr>AckRetry := v\<rparr>, rest))
      else if name = ''AckReplyTm'' then
        (case ReadTimeBytes L bts of Inl e \<Rightarrow> Inl e
         | Inr (v, rest) \<Rightarrow> Inr (z\<lparr>AckReplyTm := v\<rparr>, rest))
      else if name = ''AckOnly'' then
        (case ReadBoolBytes L bts of Inl e \<Rightarrow> Inl e
         | Inr (v, rest) \<Rightarrow> Inr (z\<lparr>AckOnly := v\<rparr>, rest))
      else if name = ''KeepAlive'' then
        (case ReadBoolBytes L bts of Inl e \<Rightarrow> Inl e
         | Inr (v, rest) \<Rightarrow> Inr (z\<lparr>KeepAlive := v\<rparr>, rest))
      else if name = ''AvailReaderBytesCap'' then
        (case ReadInt64Bytes L bts of Inl e \<Rightarrow> Inl e
         | Inr (v, rest) \<Rightarrow> Inr (z\<lparr>AvailReaderBytesCap := v\<rparr>, rest))
      else if name = ''AvailReaderMsgCap'' then
        (case ReadInt64Bytes L bts of Inl e \<Rightarrow> Inl e
         | Inr (v, rest) \<Rightarrow> Inr (z\<lparr>AvailReaderMsgCap := v\<rparr>, rest))
      else if name = ''FromRttEstNsec'' then
        (case ReadInt64Bytes L bts of Inl e \<Rightarrow> Inl e
         | Inr (v, rest) \<Rightarrow> Inr (z\<lparr>FromRttEstNsec := v\<rparr>, rest))
      else if name = ''FromRttSdNsec'' then
        (case ReadInt64Bytes L bts of Inl e \<Rightarrow> Inl e
         | Inr (v, rest) \<Rightarrow> Inr (z\<lparr>FromRttSdNsec := v\<rparr>, rest))
      else if name = ''FromRttN'' then
        (case ReadInt64Bytes L bts of Inl e \<Rightarrow> Inl e
         | Inr (v, rest) \<Rightarrow> Inr (z\<lparr>FromRttN := v\<rparr>, rest))
      else if name = ''CumulBytesTransmitted'' then
        (case ReadInt64Bytes L bts of Inl e \<Rightarrow> Inl e
         | Inr (v, rest) \<Rightarrow> Inr (z\<lparr>CumulBytesTransmitted := v\<rparr>, rest))
      else if name = ''Data'' then
        (case ReadBytesBytes L bts of Inl e \<Rightarrow> Inl e
         | Inr (v, rest) \<Rightarrow> Inr (z\<lparr>Data := v\<rparr>, rest))
      else (case Skip L bts of Inl e \<Rightarrow> Inl e | Inr rest \<Rightarrow> Inr (z, rest)))"


text \<open>
  The loop \<open>for isz > 0 { isz--; ... }\<close> over the entries of the map, and \<open>UnmarshalMsg\<close>:
  the packet read into \<open>z\<close> and the bytes left over, or the error of the library.
\<close>

fun unmarshal_loop :: "'e msgp \<Rightarrow> nat \<Rightarrow> Packet \<Rightarrow> bytes \<Rightarrow> 'e + Packet \<times> bytes" where
  "unmarshal_loop L 0 z bts = Inr (z, bts)"
| "unmarshal_loop L (Suc isz) z bts =
     (case ReadMapKeyZC L bts of
        Inl e \<Rightarrow> Inl e
      | Inr (field, bts1) \<Rightarrow>
          (case unmarshal_field L (UnsafeString field) z bts1 of
             Inl e \<Rightarrow> Inl e
           | Inr (z1, bts2) \<Rightarrow> unmarshal_loop L isz z1 bts2))"

definition UnmarshalMsg :: "'e msgp \<Rightarrow> Packet \<Rightarrow> bytes \<Rightarrow> 'e + Packet \<times> bytes" where
  "UnmarshalMsg L z bts =
     (case ReadMapHeaderBytes L bts of
        Inl e \<Rightarrow> Inl e
      | Inr (isz, bts1) \<Rightarrow> unmarshal_loop L (unat isz) z bts1)"

text \<open>The names of the 18 fields.\<close>

definition field_names :: "string list" where
  "field_names =
     [''From'',
      ''Dest'',
      ''ArrivedAtDestTm'',
      ''DataSendTm'',
      ''SeqNum'',
      ''SeqRetry'',
      ''AckNum'',
      ''AckRetry'',
      ''AckReplyTm'',
      ''AckOnly'',
      ''KeepAlive'',
      ''AvailReaderBytesCap'',
      ''AvailReaderMsgCap'',
      ''FromRttEstNsec'',
      ''FromRttSdNsec'',
      ''FromRttN'',
      ''CumulBytesTransmitted'',
      ''Data'']"

text \<open>
  What the library promises, as far as the generated code relies on it: every \<open>Read\<close>
  function takes back what its \<open>Append\<close> function wrote and returns the rest of the input
  (strings and byte slices up to the 32-bit length that the format can carry); the bytes
  \<open>0xde\<close>, high, low are the header of a map with that many entries; and a byte
  \<open>0xa0 + n\<close> with \<open>n < 32\<close>, followed by \<open>n\<close> bytes, is a key of \<open>n\<close> bytes.
\<close>

definition msgp_contract :: "'e msgp \<Rightarrow> bool" where
  "msgp_contract L =
     ((\<forall>s rest. length s < 2 ^ 32 \<longrightarrow>
         ReadStringBytes L (string_enc L s @ rest) = Inr (s, rest))
      \<and> (\<forall>t rest. ReadTimeBytes L (time_enc L t @ rest) = Inr (t, rest))
      \<and> (\<forall>n rest. ReadInt64Bytes L (int64_enc L n @ rest) = Inr (n, rest))
      \<and> (\<forall>v rest. ReadBoolBytes L (bool_enc L v @ rest) = Inr (v, rest))
      \<and> (\<forall>d rest. length d < 2 ^ 32 \<longrightarrow>
         ReadBytesBytes L (bytes_enc L d @ rest) = Inr (d, rest))
      \<and> (\<forall>hi lo rest. ReadMapHeaderBytes L (0xde # hi # lo # rest)
           = Inr (of_nat (unat hi * 256 + unat lo), rest))
      \<and> (\<forall>k rest. length k < 32 \<longrightarrow>
         ReadMapKeyZC L ((0xa0 + of_nat (length k)) # k @ rest) = Inr (k, rest)))"

section \<open>Example inputs\<close>

text \<open>A data packet from A to B with the given sequence number, byte count and payload.\<close>

definition example_data :: "Seqno \<Rightarrow> int64 \<Rightarrow> byte list \<Rightarrow> Packet" where
  "example_data s c d =
     zero_Packet\<lparr>From := ''A'', Dest := ''B'', SeqNum := s,
                 CumulBytesTransmitted := c, Data := d\<rparr>"

text \<open>
  A keep-alive from A that is not ack-only, with a byte count; every other field has its
  zero value.
\<close>

definition example_keep_alive :: "int64 \<Rightarrow> Packet" where
  "example_keep_alive c =
     zero_Packet\<lparr>From := ''A'', Dest := ''B'', KeepAlive := True,
                 CumulBytesTransmitted := c\<rparr>"

text \<open>An ack-only packet from A, with the sentinel \<open>SeqNum = -99\<close> and a byte count.\<close>

definition example_ack :: "int64 \<Rightarrow> Packet" where
  "example_ack c =
     zero_Packet\<lparr>From := ''A'', Dest := ''B'', SeqNum := - 99, AckOnly := True,
                 CumulBytesTransmitted := c\<rparr>"

section \<open>The advertised window\<close>

text \<open>
  Claim C4. For every receiver state, \<open>UpdateFlowControl\<close> sets
  \<open>LastAvailReaderMsgCap\<close> to \<open>RecvWindowSize - (LargestSeqnoRcvd - LastMsgConsumed)\<close> and
  \<open>LastAvailReaderBytesCap\<close> to
  \<open>RecvWindowSizeBytes - (MaxCumulBytesTrans - (LastByteConsumed + 1))\<close>, in \<open>int64\<close>
  arithmetic, and passes exactly these two values to \<open>FlowCt.UpdateFlow\<close> of the local
  sender.
\<close>

theorem UpdateFlowControl_advertised_window:
  "LastAvailReaderMsgCap (fst (UpdateFlowControl r))
     = RecvWindowSize r - (LargestSeqnoRcvd r - LastMsgConsumed r)
   \<and> LastAvailReaderBytesCap (fst (UpdateFlowControl r))
     = RecvWindowSizeBytes r - (MaxCumulBytesTrans r - (LastByteConsumed r + 1))
   \<and> snd (UpdateFlowControl r)
     = [FlowUpdate (Inbox r @ '':recver'')
          (RecvWindowSize r - (LargestSeqnoRcvd r - LastMsgConsumed r))
          (RecvWindowSizeBytes r - (MaxCumulBytesTrans r - (LastByteConsumed r + 1)))]"
  by (simp add: UpdateFlowControl_def Let_def)

section \<open>Delivery to the consumer\<close>

text \<open>
  Claim C5. After the handoff of a batch, \<open>LastByteConsumed\<close> should be the highest byte
  index consumed so far, given by the last element of the batch. The code computes it
  from the first element, as \<open>CumulBytesTransmitted - len(Data)\<close>: a receiver with a
  window of 4 gets packet 0 (3 bytes, 3 transmitted in all) and packet 1 (2 bytes, 5 in
  all) and hands both to the consumer in one batch. The bytes 0 to 4 are consumed and
  \<open>LastMsgConsumed\<close> is 1, but \<open>LastByteConsumed\<close> is 0, not 4.
\<close>

theorem deliver_sets_LastByteConsumed_from_first:
  "(case NewRecvState 4 100 ''B'' of
      Inl h \<Rightarrow> False
    | Inr r0 \<Rightarrow>
        (case run r0 [MsgRecv (example_data 0 3 [1, 2, 3]) AsapTimedOut GotAckSent,
                      MsgRecv (example_data 1 5 [4, 5]) AsapTimedOut GotAckSent,
                      Deliver] of
           Inl h \<Rightarrow> False
         | Inr (r, fx) \<Rightarrow>
             LastMsgConsumed r = 1 \<and> LastByteConsumed r = 0 \<and> LastByteConsumed r \<noteq> 4
             \<and> last fx = Delivered [Some (example_data 0 3 [1, 2, 3]),
                                    Some (example_data 1 5 [4, 5])]))"
  by code_simp

section \<open>Push on a stopping session\<close>

text \<open>
  Claim C7, as stated, fails: with the shutdown signal raised and the sender no longer
  taking packets, \<open>Push\<close> returns without admitting the payload and the caller gets no
  error, so not \<open>ErrShutdown\<close>.
\<close>

theorem Push_stopping_counterexample:
  "Push False True ReqStopSeen zero_Packet = Some \<lparr>admitted = None, returned = None\<rparr>
   \<and> map_option returned (Push False True ReqStopSeen zero_Packet) \<noteq> Some (Some ErrShutdown)"
  by (simp add: Push_def)

text \<open>
  Claim C7, amended. When the session is stopping and \<open>Push\<close> takes the shutdown branch
  of its \<open>select\<close>, it gives up: the payload is not admitted and nothing is reported to
  the caller. \<open>Push\<close> has no result, so in no case does it return \<open>ErrShutdown\<close>.
\<close>

theorem Push_gives_up_without_error:
  "Push sender_ready True ReqStopSeen pack = Some \<lparr>admitted = None, returned = None\<rparr>
   \<and> map_option returned (Push sender_ready stopping pick pack) \<noteq> Some (Some ErrShutdown)"
  by (simp add: Push_def split: push_choice.split)

section \<open>The simulator's Send\<close>

lemma Send_keeps_Net: "Net (fst (snd (Send sim pack why rnd))) = Net sim"
  by (simp add: Send_def Let_def split: option.split)

lemma Listen_Net: "Net (fst (Listen sim inbox ch)) = (Net sim)(inbox \<mapsto> ch)"
  by (simp add: Listen_def)

lemma dom_Net_sim_run: "dom (Net (sim_run sim ops)) = dom (Net sim) \<union> listened ops"
proof (induction ops arbitrary: sim)
  case Nil
  show ?case by simp
next
  case (Cons a ops)
  show ?case
  proof (cases a)
    case (DoListen inbox ch)
    then show ?thesis using Cons.IH [of "fst (Listen sim inbox ch)"]
      by (auto simp: Listen_Net)
  next
    case (DoSend pack why rnd)
    then show ?thesis using Cons.IH [of "fst (snd (Send sim pack why rnd))"]
      by (simp add: Send_keeps_Net)
  next
    case (SetDiscardOnce s)
    then show ?thesis using Cons.IH [of "sim\<lparr>DiscardOnce := s\<rparr>"] by simp
  next
    case (SetSimulateReorderNext n)
    then show ?thesis using Cons.IH [of "sim\<lparr>SimulateReorderNext := n\<rparr>"] by simp
  next
    case (SetDuplicateNext d)
    then show ?thesis using Cons.IH [of "sim\<lparr>DuplicateNext := d\<rparr>"] by simp
  next
    case (SetLossProb p)
    then show ?thesis using Cons.IH [of "sim\<lparr>LossProb := p\<rparr>"] by simp
  next
    case (SetLatency l)
    then show ?thesis using Cons.IH [of "sim\<lparr>Latency := l\<rparr>"] by simp
  qed
qed

lemma Send_error_iff_Net: "(fst (Send sim pack why rnd) \<noteq> None) = (Net sim (Dest pack) = None)"
  by (simp add: Send_def Let_def split: option.split)

lemma Send_error_schedules_nothing:
  "Net sim (Dest pack) = None \<Longrightarrow>
     fst (Send sim pack why rnd) = Some (ErrUnknownNode (Dest pack))
     \<and> snd (snd (Send sim pack why rnd)) = []"
  by (simp add: Send_def Let_def)

lemma Send_held_back:
  "Net sim (Dest pack) = Some ch \<Longrightarrow> SimulateReorderNext sim = 1 \<Longrightarrow>
   fst (Send sim pack why rnd) = None \<and> snd (snd (Send sim pack why rnd)) = []
   \<and> heldBack (fst (snd (Send sim pack why rnd))) = Some pack"
  by (simp add: Send_def Let_def)

lemma Send_discarded_once:
  "Net sim (Dest pack) = Some ch \<Longrightarrow> SimulateReorderNext sim \<noteq> 1 \<Longrightarrow>
   SeqNum pack = DiscardOnce sim \<Longrightarrow>
   fst (Send sim pack why rnd) = None \<and> snd (snd (Send sim pack why rnd)) = []
   \<and> DiscardOnce (fst (snd (Send sim pack why rnd))) = - 1"
  by (simp add: Send_def Let_def)

lemma Send_lost:
  "Net sim (Dest pack) = Some ch \<Longrightarrow> SimulateReorderNext sim \<noteq> 1 \<Longrightarrow>
   SeqNum pack \<noteq> DiscardOnce sim \<Longrightarrow>
   0 < LossProb sim \<Longrightarrow> cryptoProb rnd \<le> LossProb sim \<Longrightarrow>
   fst (Send sim pack why rnd) = None \<and> snd (snd (Send sim pack why rnd)) = []"
  by (simp add: Send_def Let_def)

text \<open>
  Claim C10. In every state of the simulator, whatever its fields \<open>SimulateReorderNext\<close>,
  \<open>heldBack\<close>, \<open>DiscardOnce\<close>, \<open>DuplicateNext\<close> and \<open>LossProb\<close> hold, \<open>Send\<close> returns a
  non-nil error if and only if \<open>sim.Net\<close> has no channel for the packet's \<open>Dest\<close>; the
  error then names the inbox and no delivery is scheduled. With a channel registered,
  \<open>Send\<close> returns nil and schedules nothing when the reorder flag holds the packet back
  (it is kept in \<open>heldBack\<close>), when the packet matches \<open>DiscardOnce\<close>, and when the loss
  draw loses it. On a simulator that was made by \<open>NewSimNet\<close> and then used through
  \<open>Listen\<close>, \<open>Send\<close> and assignments to its exported fields, \<open>sim.Net\<close> has a channel for
  an inbox if and only if \<open>Listen\<close> was called for it, so \<open>Send\<close> returns the error if and
  only if no prior \<open>Listen\<close> registered \<open>Dest\<close>.
\<close>

theorem Send_error_iff_not_listened:
  "(fst (Send sim pack why rnd) \<noteq> None) = (Net sim (Dest pack) = None)
   \<and> (Net sim (Dest pack) = None \<longrightarrow>
        fst (Send sim pack why rnd) = Some (ErrUnknownNode (Dest pack))
        \<and> snd (snd (Send sim pack why rnd)) = [])
   \<and> (Net sim (Dest pack) \<noteq> None \<and> SimulateReorderNext sim = 1 \<longrightarrow>
        fst (Send sim pack why rnd) = None \<and> snd (snd (Send sim pack why rnd)) = []
        \<and> heldBack (fst (snd (Send sim pack why rnd))) = Some pack)
   \<and> (Net sim (Dest pack) \<noteq> None \<and> SimulateReorderNext sim \<noteq> 1
        \<and> SeqNum pack = DiscardOnce sim \<longrightarrow>
        fst (Send sim pack why rnd) = None \<and> snd (snd (Send sim pack why rnd)) = [])
   \<and> (Net sim (Dest pack) \<noteq> None \<and> SimulateReorderNext sim \<noteq> 1
        \<and> SeqNum pack \<noteq> DiscardOnce sim
        \<and> 0 < LossProb sim \<and> cryptoProb rnd \<le> LossProb sim \<longrightarrow>
        fst (Send sim pack why rnd) = None \<and> snd (snd (Send sim pack why rnd)) = [])
   \<and> (Net (sim_run (NewSimNet lossProb latency) ops) (Dest pack) = None)
       = (Dest pack \<notin> listened ops)
   \<and> (fst (Send (sim_run (NewSimNet lossProb latency) ops) pack why rnd) \<noteq> None)
       = (Dest pack \<notin> listened ops)"
proof -
  let ?sim = "sim_run (NewSimNet lossProb latency) ops"
  have d: "dom (Net ?sim) = listened ops"
    using dom_Net_sim_run [of "NewSimNet lossProb latency" ops] by (simp add: NewSimNet_def)
  have "(Dest pack \<in> dom (Net ?sim)) = (Dest pack \<in> listened ops)"
    using d by simp
  then have n: "(Net ?sim (Dest pack) = None) = (Dest pack \<notin> listened ops)"
    by (cases "Net ?sim (Dest pack)") (auto simp: domIff)
  have a: "(fst (Send sim pack why rnd) \<noteq> None) = (Net sim (Dest pack) = None)"
    by (rule Send_error_iff_Net)
  have b: "Net sim (Dest pack) = None \<longrightarrow>
        fst (Send sim pack why rnd) = Some (ErrUnknownNode (Dest pack))
        \<and> snd (snd (Send sim pack why rnd)) = []"
    using Send_error_schedules_nothing by blast
  have c: "Net sim (Dest pack) \<noteq> None \<and> SimulateReorderNext sim = 1 \<longrightarrow>
        fst (Send sim pack why rnd) = None \<and> snd (snd (Send sim pack why rnd)) = []
        \<and> heldBack (fst (snd (Send sim pack why rnd))) = Some pack"
    using Send_held_back by blast
  have e: "Net sim (Dest pack) \<noteq> None \<and> SimulateReorderNext sim \<noteq> 1
        \<and> SeqNum pack = DiscardOnce sim \<longrightarrow>
        fst (Send sim pack why rnd) = None \<and> snd (snd (Send sim pack why rnd)) = []"
    using Send_discarded_once by blast
  have f: "Net sim (Dest pack) \<noteq> None \<and> SimulateReorderNext sim \<noteq> 1
        \<and> SeqNum pack \<noteq> DiscardOnce sim
        \<and> 0 < LossProb sim \<and> cryptoProb rnd \<le> LossProb sim \<longrightarrow>
        fst (Send sim pack why rnd) = None \<and> snd (snd (Send sim pack why rnd)) = []"
    using Send_lost by blast
  have g: "(fst (Send ?sim pack why rnd) \<noteq> None) = (Dest pack \<notin> listened ops)"
    using Send_error_iff_Net [of ?sim pack why rnd] n by simp
  show ?thesis
    by (intro conjI) (rule a b c e f n g)+
qed

theorem Send_error_iff_not_listened_witness:
  "fst (Send (sim_run (NewSimNet (1/2) 1000) [DoListen ''C'' 7])
          (example_data 0 3 [1, 2, 3]) ''data'' 5) = Some (ErrUnknownNode ''B'')
   \<and> snd (snd (Send (sim_run (NewSimNet (1/2) 1000) [DoListen ''C'' 7])
                 (example_data 0 3 [1, 2, 3]) ''data'' 5)) = []
   \<and> Net (sim_run (NewSimNet (1/2) 1000) [DoListen ''B'' 7, SetSimulateReorderNext 1])
        (Dest (example_data 0 3 [1, 2, 3])) \<noteq> None
   \<and> SimulateReorderNext
        (sim_run (NewSimNet (1/2) 1000) [DoListen ''B'' 7, SetSimulateReorderNext 1]) = 1
   \<and> fst (Send (sim_run (NewSimNet (1/2) 1000) [DoListen ''B'' 7, SetSimulateReorderNext 1])
            (example_data 0 3 [1, 2, 3]) ''data'' 5) = None
   \<and> heldBack (fst (snd (Send
          (sim_run (NewSimNet (1/2) 1000) [DoListen ''B'' 7, SetSimulateReorderNext 1])
          (example_data 0 3 [1, 2, 3]) ''data'' 5))) = Some (example_data 0 3 [1, 2, 3])
   \<and> SeqNum (example_data 0 3 [1, 2, 3])
        = DiscardOnce (sim_run (NewSimNet (1/2) 1000) [DoListen ''B'' 7, SetDiscardOnce 0])
   \<and> fst (Send (sim_run (NewSimNet (1/2) 1000) [DoListen ''B'' 7, SetDiscardOnce 0])
            (example_data 0 3 [1, 2, 3]) ''data'' 5) = None
   \<and> snd (snd (Send (sim_run (NewSimNet (1/2) 1000) [DoListen ''B'' 7, SetDiscardOnce 0])
                 (example_data 0 3 [1, 2, 3]) ''data'' 5)) = []
   \<and> 0 < LossProb (sim_run (NewSimNet 1 1000) [DoListen ''B'' 7])
   \<and> cryptoProb 5 \<le> LossProb (sim_run (NewSimNet 1 1000) [DoListen ''B'' 7])
   \<and> fst (Send (sim_run (NewSimNet 1 1000) [DoListen ''B'' 7])
            (example_data 0 3 [1, 2, 3]) ''data'' 5) = None
   \<and> snd (snd (Send (sim_run (NewSimNet 1 1000) [DoListen ''B'' 7])
                 (example_data 0 3 [1, 2, 3]) ''data'' 5)) = []"
proof -
  let ?p = "example_data 0 3 [1, 2, 3]"
  let ?s1 = "sim_run (NewSimNet (1/2) 1000) [DoListen ''C'' 7]"
  let ?s2 = "sim_run (NewSimNet (1/2) 1000) [DoListen ''B'' 7, SetSimulateReorderNext 1]"
  let ?s3 = "sim_run (NewSimNet (1/2) 1000) [DoListen ''B'' 7, SetDiscardOnce 0]"
  have d: "Dest ?p = ''B''" "SeqNum ?p = 0"
    by (simp_all add: example_data_def zero_Packet_def)
  have h1: "Net ?s1 (Dest ?p) = None"
    by (simp add: d Listen_def NewSimNet_def)
  have h2: "Net ?s2 (Dest ?p) \<noteq> None" "SimulateReorderNext ?s2 = 1"
    by (simp_all add: d Listen_def NewSimNet_def)
  have h3: "Net ?s3 (Dest ?p) \<noteq> None" "SimulateReorderNext ?s3 \<noteq> 1"
    "SeqNum ?p = DiscardOnce ?s3"
    by (simp_all add: d Listen_def NewSimNet_def)
  let ?s4 = "sim_run (NewSimNet 1 1000) [DoListen ''B'' 7]"
  have c5: "cryptoProb 5 = 5 / 2 ^ 20"
    by (simp add: cryptoProb_def resolution_def Let_def word_sless_alt signed_modulo_int_def)
  have h4: "Net ?s4 (Dest ?p) \<noteq> None" "SimulateReorderNext ?s4 \<noteq> 1"
    "SeqNum ?p \<noteq> DiscardOnce ?s4" "0 < LossProb ?s4" "cryptoProb 5 \<le> LossProb ?s4"
    by (simp_all add: d Listen_def NewSimNet_def c5)
  note t4 = Send_error_iff_not_listened [of ?s4 ?p "''data''" 5,
      THEN conjunct2, THEN conjunct2, THEN conjunct2, THEN conjunct2, THEN conjunct1, THEN mp,
      OF conjI [OF h4(1) conjI [OF h4(2) conjI [OF h4(3) conjI [OF h4(4) h4(5)]]]]]
  note t1 = Send_error_iff_not_listened [of ?s1 ?p "''data''" 5,
      THEN conjunct2, THEN conjunct1, THEN mp, OF h1]
  note t2 = Send_error_iff_not_listened [of ?s2 ?p "''data''" 5,
      THEN conjunct2, THEN conjunct2, THEN conjunct1, THEN mp, OF conjI [OF h2]]
  note t3 = Send_error_iff_not_listened [of ?s3 ?p "''data''" 5,
      THEN conjunct2, THEN conjunct2, THEN conjunct2, THEN conjunct1, THEN mp,
      OF conjI [OF h3(1) conjI [OF h3(2) h3(3)]]]
  have r1: "fst (Send ?s1 ?p ''data'' 5) = Some (ErrUnknownNode ''B'')"
    "snd (snd (Send ?s1 ?p ''data'' 5)) = []"
    using t1 d(1) by simp_all
  have r2: "fst (Send ?s2 ?p ''data'' 5) = None"
    "heldBack (fst (snd (Send ?s2 ?p ''data'' 5))) = Some ?p"
    using t2 by simp_all
  have r3: "fst (Send ?s3 ?p ''data'' 5) = None" "snd (snd (Send ?s3 ?p ''data'' 5)) = []"
    using t3 by simp_all
  have r4: "fst (Send ?s4 ?p ''data'' 5) = None" "snd (snd (Send ?s4 ?p ''data'' 5)) = []"
    using t4 by simp_all
  show ?thesis
    by (intro conjI) (rule r1 r2 r3 r4 h2 h3 h4)+
qed

section \<open>Signed arithmetic and the ring invariant\<close>

lemma sint64_bounds: "- (2 ^ 63) \<le> sint (x :: 64 word) \<and> sint x < 2 ^ 63"
  using sint_ge [of x] sint_lt [of x] by simp

lemma sint_inc: "sint (x :: 64 word) \<noteq> 2 ^ 63 - 1 \<Longrightarrow> sint (x + 1) = sint x + 1"
proof -
  assume a: "sint x \<noteq> 2 ^ 63 - 1"
  have b: "- (2 ^ 63) \<le> sint x + 1 \<and> sint x + 1 < 2 ^ 63"
    using sint64_bounds [of x] a by arith
  have "sint (x + 1) = signed_take_bit 63 (sint x + 1)"
    by (simp add: sint_word_ariths)
  also have "\<dots> = sint x + 1"
    using b by (simp add: signed_take_bit_int_eq_self)
  finally show ?thesis .
qed

lemma sint_dec: "0 < sint (w :: 64 word) \<Longrightarrow> sint (w - 1) = sint w - 1"
proof -
  assume a: "0 < sint w"
  have b: "- (2 ^ 63) \<le> sint w - 1 \<and> sint w - 1 < 2 ^ 63"
    using sint64_bounds [of w] a by arith
  have "sint (w - 1) = signed_take_bit 63 (sint w - 1)"
    by (simp add: sint_word_ariths)
  also have "\<dots> = sint w - 1"
    using b by (simp add: signed_take_bit_int_eq_self)
  finally show ?thesis .
qed

lemma smod_cong_dvd:
  fixes a n w :: int
  assumes "a smod w = n smod w"
  shows "w dvd a - n"
proof -
  have "a - n = (a - a smod w) - (n - n smod w)"
    using assms by simp
  also have "\<dots> = a sdiv w * w - n sdiv w * w"
    by (simp only: minus_smod_eq_sdiv_mult)
  also have "\<dots> = (a sdiv w - n sdiv w) * w"
    by (simp add: algebra_simps)
  finally show ?thesis by simp
qed

lemma smod_unique:
  fixes a n w :: int
  assumes "0 < w" "n \<le> a" "a < n + w" "a smod w = n smod w"
  shows "a = n"
proof (rule ccontr)
  assume "a \<noteq> n"
  then have "0 < a - n" "a - n < w" using assms by arith+
  then have "\<not> w dvd a - n" by (rule zdvd_not_zless)
  then show False using smod_cong_dvd [OF assms(4)] by simp
qed

lemma InWindow_int:
  fixes s n w :: "64 word"
  assumes iw: "InWindow s n (n + w - 1)" and w: "0 < sint w"
  shows "sint n \<le> sint s \<and> sint s < sint n + sint w"
proof -
  have lo: "sint n \<le> sint s" and hi: "sint s \<le> sint (n + w - 1)"
    using iw by (auto simp: InWindow_def word_sless_alt split: if_splits)
  have e: "n + w - 1 = n + (w - 1)" by simp
  have "sint (n + (w - 1)) = signed_take_bit (LENGTH(64) - 1) (sint n + sint (w - 1))"
    by (rule sint_word_ariths(1))
  then have m: "sint (n + w - 1) = signed_take_bit 63 (sint n + (sint w - 1))"
    unfolding e sint_dec [OF w] by simp
  show ?thesis
  proof (cases "sint n + (sint w - 1) < 2 ^ 63")
    case True
    have "- (2 ^ 63) \<le> sint n + (sint w - 1)"
      using sint64_bounds [of n] w by arith
    then have "sint (n + w - 1) = sint n + (sint w - 1)"
      using True m by (simp add: signed_take_bit_int_eq_self)
    then show ?thesis using lo hi by arith
  next
    case False
    then have "2 ^ 63 \<le> sint n + (sint w - 1)" by simp
    then have "signed_take_bit 63 (sint n + (sint w - 1)) \<le> sint n + (sint w - 1) - 2 ^ Suc 63"
      by (rule signed_take_bit_int_less_eq)
    then have "sint (n + w - 1) \<le> sint n + (sint w - 1) - 2 ^ 64"
      using m by simp
    then have "sint (n + w - 1) < sint n"
      using sint64_bounds [of w] by simp
    then show ?thesis using lo hi by arith
  qed
qed


declare deliver_loop.simps [simp del]

lemma rxq_index_Inr:
  assumes "rxq_index r s = Inr i"
  shows "RecvWindowSize r \<noteq> 0" "int i = sint s smod sint (RecvWindowSize r)"
    "i < length (Rxq r)"
  using assms by (auto simp: rxq_index_def Let_def split: if_splits)

lemma rxq_index_cong:
  "RecvWindowSize r' = RecvWindowSize r \<Longrightarrow> length (Rxq r') = length (Rxq r) \<Longrightarrow>
   rxq_index r' s = rxq_index r s"
  by (simp add: rxq_index_def)

lemma ring_ok_cong:
  "Rxq r' = Rxq r \<Longrightarrow> NextFrameExpected r' = NextFrameExpected r \<Longrightarrow>
   RecvWindowSize r' = RecvWindowSize r \<Longrightarrow> ring_ok r' = ring_ok r"
  by (simp add: ring_ok_def)

lemma hist_ok_cong:
  "RecvHistory r' = RecvHistory r \<Longrightarrow> NextFrameExpected r' = NextFrameExpected r \<Longrightarrow>
   hist_ok r' = hist_ok r"
  by (simp add: hist_ok_def)

lemma ring_slot_is_next:
  assumes ring: "ring_ok r" and idx: "rxq_index r (NextFrameExpected r) = Inr i"
    and rcv: "Received (Rxq r ! i)"
  shows "\<exists>p. Pack (Rxq r ! i) = Some p \<and> SeqNum p = NextFrameExpected r"
proof -
  have il: "i < length (Rxq r)" and ires: "int i = sint (NextFrameExpected r) smod sint (RecvWindowSize r)"
    using rxq_index_Inr [OF idx] by auto
  have wpos: "0 < sint (RecvWindowSize r)"
    using ring il by (auto simp: ring_ok_def)
  obtain p where p: "Pack (Rxq r ! i) = Some p"
    "sint (NextFrameExpected r) \<le> sint (SeqNum p)"
    "sint (SeqNum p) < sint (NextFrameExpected r) + sint (RecvWindowSize r)"
    "sint (SeqNum p) smod sint (RecvWindowSize r) = int i"
    using ring il rcv by (auto simp: ring_ok_def)
  have "sint (SeqNum p) = sint (NextFrameExpected r)"
    using smod_unique [OF wpos p(2) p(3)] p(4) ires by simp
  then have "SeqNum p = NextFrameExpected r" by (rule signed_word_eqI)
  then show ?thesis using p(1) by simp
qed

lemma deliver_slot_hist_ok:
  assumes ring: "ring_ok r" and hist: "hist_ok r"
    and idx: "rxq_index r (NextFrameExpected r) = Inr i" and rcv: "Received (Rxq r ! i)"
  shows "hist_ok (deliver_slot r i)"
proof -
  obtain p where p: "Pack (Rxq r ! i) = Some p" "SeqNum p = NextFrameExpected r"
    using ring_slot_is_next [OF ring idx rcv] by auto
  have n: "NextFrameExpected r = of_nat (length (RecvHistory r))"
    using hist by (simp add: hist_ok_def)
  have old: "\<forall>k < length (RecvHistory r). \<exists>q. RecvHistory r ! k = Some q \<and> SeqNum q = of_nat k"
    using hist by (simp add: hist_ok_def)
  show ?thesis
    unfolding hist_ok_def deliver_slot_def
    using p n old by (auto simp: nth_append less_Suc_eq)
qed

lemma deliver_slot_ring_ok:
  assumes ring: "ring_ok r"
    and idx: "rxq_index r (NextFrameExpected r) = Inr i" and rcv: "Received (Rxq r ! i)"
  shows "ring_ok (deliver_slot r i)"
proof -
  let ?n = "sint (NextFrameExpected r)" and ?w = "sint (RecvWindowSize r)"
  have il: "i < length (Rxq r)" and ires: "int i = ?n smod ?w"
    using rxq_index_Inr [OF idx] by auto
  have len: "length (Rxq r) = nat ?w" and w0: "0 \<le> ?w"
    using ring by (auto simp: ring_ok_def)
  have slot: "\<exists>p. Pack (Rxq (deliver_slot r i) ! j) = Some p
        \<and> sint (NextFrameExpected (deliver_slot r i)) \<le> sint (SeqNum p)
        \<and> sint (SeqNum p) < sint (NextFrameExpected (deliver_slot r i)) + ?w
        \<and> sint (SeqNum p) smod ?w = int j"
    if j: "j < length (Rxq r)" and rj: "Received (Rxq (deliver_slot r i) ! j)" for j
  proof -
    have ji: "j \<noteq> i" using rj il by (auto simp: deliver_slot_def)
    then have same: "Rxq (deliver_slot r i) ! j = Rxq r ! j"
      by (simp add: deliver_slot_def)
    obtain q where q: "Pack (Rxq r ! j) = Some q" "?n \<le> sint (SeqNum q)"
      "sint (SeqNum q) < ?n + ?w" "sint (SeqNum q) smod ?w = int j"
      using ring j rj same by (auto simp: ring_ok_def)
    have "sint (SeqNum q) \<noteq> ?n"
      using q(4) ires ji by auto
    then have lt: "?n + 1 \<le> sint (SeqNum q)" using q(2) by arith
    have "sint (SeqNum q) < 2 ^ 63" using sint64_bounds [of "SeqNum q"] by simp
    then have "?n \<noteq> 2 ^ 63 - 1" using lt by arith
    then have "sint (NextFrameExpected r + 1) = ?n + 1" by (rule sint_inc)
    then show ?thesis
      using q lt same by (auto simp: deliver_slot_def)
  qed
  show ?thesis
    unfolding ring_ok_def
    using slot len w0 by (simp add: deliver_slot_def)
qed

lemma deliver_loop_stop:
  "\<not> (i < length (Rxq r) \<and> Received (Rxq r ! i)) \<Longrightarrow> deliver_loop r i = Inr r"
  by (subst deliver_loop.simps) auto

lemma deliver_loop_step:
  "i < length (Rxq r) \<and> Received (Rxq r ! i) \<Longrightarrow>
   deliver_loop r i =
     (case rxq_index (deliver_slot r i) (NextFrameExpected (deliver_slot r i)) of
        Inl e \<Rightarrow> Inl e
      | Inr j \<Rightarrow> deliver_loop (deliver_slot r i) j)"
  by (subst deliver_loop.simps) simp

lemma deliver_loop_inv:
  "deliver_loop r i = Inr r' \<Longrightarrow> ring_ok r \<Longrightarrow> hist_ok r \<Longrightarrow>
   rxq_index r (NextFrameExpected r) = Inr i \<Longrightarrow> ring_ok r' \<and> hist_ok r'"
proof (induction r i rule: deliver_loop.induct)
  case (1 r i)
  show ?case
  proof (cases "i < length (Rxq r) \<and> Received (Rxq r ! i)")
    case False
    then have "deliver_loop r i = Inr r" by (rule deliver_loop_stop)
    then show ?thesis using "1.prems" by simp
  next
    case True
    then obtain j where j: "rxq_index (deliver_slot r i) (NextFrameExpected (deliver_slot r i)) = Inr j"
      and rec: "deliver_loop (deliver_slot r i) j = Inr r'"
      using "1.prems"(1) by (simp add: deliver_loop_step split: sum.splits)
    have r1: "ring_ok (deliver_slot r i)"
      using deliver_slot_ring_ok [OF "1.prems"(2) "1.prems"(4)] True by simp
    have h1: "hist_ok (deliver_slot r i)"
      using deliver_slot_hist_ok [OF "1.prems"(2) "1.prems"(3) "1.prems"(4)] True by simp
    show ?thesis
      using "1.IH" [OF True j rec r1 h1 j] .
  qed
qed


lemma UpdateFlowControl_frame [simp]:
  "Rxq (fst (UpdateFlowControl r)) = Rxq r"
  "NextFrameExpected (fst (UpdateFlowControl r)) = NextFrameExpected r"
  "RecvWindowSize (fst (UpdateFlowControl r)) = RecvWindowSize r"
  "RecvHistory (fst (UpdateFlowControl r)) = RecvHistory r"
  "ReadyForDelivery (fst (UpdateFlowControl r)) = ReadyForDelivery r"
  "RcvdButNotConsumed (fst (UpdateFlowControl r)) = RcvdButNotConsumed r"
  "LargestSeqnoRcvd (fst (UpdateFlowControl r)) = LargestSeqnoRcvd r"
  "MaxCumulBytesTrans (fst (UpdateFlowControl r)) = MaxCumulBytesTrans r"
  "DiscardCount (fst (UpdateFlowControl r)) = DiscardCount r"
  "Inbox (fst (UpdateFlowControl r)) = Inbox r"
  by (simp_all add: UpdateFlowControl_def Let_def)

lemma ack_fst: "fst (ack r seqno dest) = fst (UpdateFlowControl r)"
  by (simp add: ack_def split: prod.split)

lemma acks_sent_append: "acks_sent (xs @ ys) = acks_sent xs @ acks_sent ys"
  by (induction xs rule: acks_sent.induct) simp_all

lemma acks_sent_UpdateFlowControl [simp]: "acks_sent (snd (UpdateFlowControl r)) = []"
  by (simp add: UpdateFlowControl_def Let_def)

lemma ack_acks_sent:
  "acks_sent (snd (ack r seqno dest)) =
     [zero_Packet\<lparr>From := Inbox r, Dest := dest, SeqNum := - 99, AckNum := seqno,
                  AckOnly := True,
                  AvailReaderBytesCap := LastAvailReaderBytesCap (fst (UpdateFlowControl r)),
                  AvailReaderMsgCap := LastAvailReaderMsgCap (fst (UpdateFlowControl r))\<rparr>]"
  by (simp add: ack_def UpdateFlowControl_def Let_def split: prod.split)

lemma update_marks_frame:
  assumes "update_marks r pack = Inr r1"
  shows "Rxq r1 = Rxq r" "NextFrameExpected r1 = NextFrameExpected r"
    "RecvWindowSize r1 = RecvWindowSize r" "RecvHistory r1 = RecvHistory r"
    "ReadyForDelivery r1 = ReadyForDelivery r" "RcvdButNotConsumed r1 = RcvdButNotConsumed r"
    "DiscardCount r1 = DiscardCount r" "Inbox r1 = Inbox r"
  using assms by (auto simp: update_marks_def split: if_splits)

lemma hold_frame [simp]:
  "Rxq (hold r pack) = Rxq r" "NextFrameExpected (hold r pack) = NextFrameExpected r"
  "RecvWindowSize (hold r pack) = RecvWindowSize r" "RecvHistory (hold r pack) = RecvHistory r"
  "ReadyForDelivery (hold r pack) = ReadyForDelivery r"
  "DiscardCount (hold r pack) = DiscardCount r" "Inbox (hold r pack) = Inbox r"
  "LargestSeqnoRcvd (hold r pack) = LargestSeqnoRcvd r"
  "MaxCumulBytesTrans (hold r pack) = MaxCumulBytesTrans r"
  by (simp_all add: hold_def)

lemma store_frame [simp]:
  "Rxq (store r i pack) = (Rxq r)[i := \<lparr>Received = True, Pack = Some pack\<rparr>]"
  "NextFrameExpected (store r i pack) = NextFrameExpected r"
  "RecvWindowSize (store r i pack) = RecvWindowSize r"
  "RecvHistory (store r i pack) = RecvHistory r"
  "ReadyForDelivery (store r i pack) = ReadyForDelivery r"
  "RcvdButNotConsumed (store r i pack) = RcvdButNotConsumed r"
  "DiscardCount (store r i pack) = DiscardCount r" "Inbox (store r i pack) = Inbox r"
  "LargestSeqnoRcvd (store r i pack) = LargestSeqnoRcvd r"
  "MaxCumulBytesTrans (store r i pack) = MaxCumulBytesTrans r"
  by (simp_all add: store_def)

lemma discard_frame [simp]:
  "Rxq (fst (discard r pack)) = Rxq r"
  "NextFrameExpected (fst (discard r pack)) = NextFrameExpected r"
  "RecvWindowSize (fst (discard r pack)) = RecvWindowSize r"
  "RecvHistory (fst (discard r pack)) = RecvHistory r"
  "ReadyForDelivery (fst (discard r pack)) = ReadyForDelivery r"
  "RcvdButNotConsumed (fst (discard r pack)) = RcvdButNotConsumed r"
  "DiscardCount (fst (discard r pack)) = DiscardCount r + 1"
  "LargestSeqnoRcvd (fst (discard r pack)) = LargestSeqnoRcvd r"
  "MaxCumulBytesTrans (fst (discard r pack)) = MaxCumulBytesTrans r"
  by (simp_all add: discard_def ack_fst)

lemma ack_frame [simp]:
  "Rxq (fst (ack r s d)) = Rxq r"
  "NextFrameExpected (fst (ack r s d)) = NextFrameExpected r"
  "RecvWindowSize (fst (ack r s d)) = RecvWindowSize r"
  "RecvHistory (fst (ack r s d)) = RecvHistory r"
  "ReadyForDelivery (fst (ack r s d)) = ReadyForDelivery r"
  "RcvdButNotConsumed (fst (ack r s d)) = RcvdButNotConsumed r"
  "DiscardCount (fst (ack r s d)) = DiscardCount r"
  "LargestSeqnoRcvd (fst (ack r s d)) = LargestSeqnoRcvd r"
  "MaxCumulBytesTrans (fst (ack r s d)) = MaxCumulBytesTrans r"
  by (simp_all add: ack_fst)

lemma store_ring_ok:
  assumes ring: "ring_ok r" and i: "rxq_index r (SeqNum pack) = Inr i"
    and iw: "InWindow (SeqNum pack) (NextFrameExpected r)
               (NextFrameExpected r + RecvWindowSize r - 1)"
  shows "ring_ok (store r i pack)"
proof -
  have il: "i < length (Rxq r)" and ires: "int i = sint (SeqNum pack) smod sint (RecvWindowSize r)"
    using rxq_index_Inr [OF i] by auto
  have wpos: "0 < sint (RecvWindowSize r)"
    using ring il by (auto simp: ring_ok_def)
  have bounds: "sint (NextFrameExpected r) \<le> sint (SeqNum pack)
      \<and> sint (SeqNum pack) < sint (NextFrameExpected r) + sint (RecvWindowSize r)"
    using InWindow_int [OF iw wpos] .
  show ?thesis
    unfolding ring_ok_def
    using ring il ires bounds
    by (auto simp: ring_ok_def nth_list_update)
qed

lemma accept_data_cases:
  assumes "accept_data r pack = Inr (r', fx)"
  obtains (Discard) i where "rxq_index (hold r pack) (SeqNum pack) = Inr i"
      "\<not> InWindow (SeqNum pack) (NextFrameExpected r) (NextFrameExpected r + RecvWindowSize r - 1)"
      "(r', fx) = discard (hold r pack) pack"
    | (Stored) i where "rxq_index (hold r pack) (SeqNum pack) = Inr i"
      "InWindow (SeqNum pack) (NextFrameExpected r) (NextFrameExpected r + RecvWindowSize r - 1)"
      "SeqNum pack \<noteq> NextFrameExpected r"
      "r' = store (hold r pack) i pack" "fx = []"
    | (Delivered) i r3 where "rxq_index (hold r pack) (SeqNum pack) = Inr i"
      "InWindow (SeqNum pack) (NextFrameExpected r) (NextFrameExpected r + RecvWindowSize r - 1)"
      "SeqNum pack = NextFrameExpected r"
      "deliver_loop (store (hold r pack) i pack) i = Inr r3"
      "(r', fx) = ack r3 (NextFrameExpected r3 - 1) (From pack)"
  using assms
  by (auto simp: accept_data_def Let_def split: sum.splits if_splits)

lemma accept_data_inv:
  assumes acc: "accept_data r pack = Inr (r', fx)" and ring: "ring_ok r" and hist: "hist_ok r"
  shows "ring_ok r' \<and> hist_ok r'"
proof -
  have ring1: "ring_ok (hold r pack)" using ring ring_ok_cong [of "hold r pack" r] by simp
  have hist1: "hist_ok (hold r pack)" using hist hist_ok_cong [of "hold r pack" r] by simp
  from acc show ?thesis
  proof (cases rule: accept_data_cases)
    case (Discard i)
    then have "r' = fst (discard (hold r pack) pack)" by (metis fst_conv)
    then show ?thesis
      using ring hist ring_ok_cong [of r' r] hist_ok_cong [of r' r] by simp
  next
    case (Stored i)
    have "ring_ok (store (hold r pack) i pack)"
      using store_ring_ok [OF ring1 Stored(1)] Stored(2) by simp
    moreover have "hist_ok (store (hold r pack) i pack)"
      using hist hist_ok_cong [of "store (hold r pack) i pack" r] by simp
    ultimately show ?thesis using Stored(4) by simp
  next
    case (Delivered i r3)
    have ring2: "ring_ok (store (hold r pack) i pack)"
      using store_ring_ok [OF ring1 Delivered(1)] Delivered(2) by simp
    have hist2: "hist_ok (store (hold r pack) i pack)"
      using hist hist_ok_cong [of "store (hold r pack) i pack" r] by simp
    have idx2: "rxq_index (store (hold r pack) i pack)
                  (NextFrameExpected (store (hold r pack) i pack)) = Inr i"
      using Delivered(1) Delivered(3)
        rxq_index_cong [of "store (hold r pack) i pack" "hold r pack" "SeqNum pack"]
      by simp
    have inv3: "ring_ok r3 \<and> hist_ok r3"
      using deliver_loop_inv [OF Delivered(4) ring2 hist2 idx2] .
    have "r' = fst (ack r3 (NextFrameExpected r3 - 1) (From pack))"
      using Delivered(5) by (metis fst_conv)
    then show ?thesis
      using inv3 ring_ok_cong [of r' r3] hist_ok_cong [of r' r3] by simp
  qed
qed

section \<open>In-order delivery\<close>

lemma delivered_append: "delivered (xs @ ys) = delivered xs @ delivered ys"
  by (induction xs rule: delivered.induct) simp_all

lemma delivered_UpdateFlowControl [simp]: "delivered (snd (UpdateFlowControl r)) = []"
  by (simp add: UpdateFlowControl_def Let_def)

lemma delivered_ack [simp]: "delivered (snd (ack r s d)) = []"
  by (simp add: ack_def UpdateFlowControl_def Let_def split: prod.split)

lemma delivered_discard [simp]: "delivered (snd (discard r pack)) = []"
  by (simp add: discard_def)

lemma on_packet_cases:
  assumes "on_packet r pack ac gc = Inr (r', fx)"
  obtains (AckOnly) fx0 r1 where "offer_asap r pack ac = Inr fx0" "update_marks r pack = Inr r1"
      "gc = GotAckSent" "AckOnly pack" "r' = fst (UpdateFlowControl r1)"
      "acks_sent fx = []" "delivered fx = []"
    | (KeepAlive) fx0 r1 where "offer_asap r pack ac = Inr fx0" "update_marks r pack = Inr r1"
      "gc = GotAckSent" "\<not> AckOnly pack" "KeepAlive pack"
      "r' = fst (ack (fst (UpdateFlowControl r1)) (NextFrameExpected r - 1) (From pack))"
      "acks_sent fx = acks_sent (snd (ack (fst (UpdateFlowControl r1))
                                   (NextFrameExpected r - 1) (From pack)))"
      "delivered fx = []"
    | (Data) fx0 r1 fx3 where "offer_asap r pack ac = Inr fx0" "update_marks r pack = Inr r1"
      "gc = GotAckSent" "\<not> AckOnly pack" "\<not> KeepAlive pack"
      "accept_data (fst (UpdateFlowControl r1)) pack = Inr (r', fx3)"
      "acks_sent fx = acks_sent fx3" "delivered fx = delivered fx3"
proof -
  from assms obtain fx0 r1 where a: "offer_asap r pack ac = Inr fx0"
    and m: "update_marks r pack = Inr r1"
    by (auto simp: on_packet_def split: sum.splits)
  have ax: "acks_sent fx0 = []" "delivered fx0 = []"
    using a by (auto simp: offer_asap_def split: if_splits asap_choice.splits)
  have n: "NextFrameExpected (fst (UpdateFlowControl r1)) = NextFrameExpected r"
    using update_marks_frame(2) [OF m] by simp
  from assms a m have g: "gc = GotAckSent"
    by (auto simp: on_packet_def Let_def case_prod_beta split: gotack_choice.splits)
  show ?thesis
  proof (cases "AckOnly pack")
    case True
    then show ?thesis
      using assms a m g ax AckOnly
      by (auto simp: on_packet_def Let_def case_prod_beta acks_sent_append delivered_append)
  next
    case False
    show ?thesis
    proof (cases "KeepAlive pack")
      case True
      then show ?thesis
        using assms a m g ax n False KeepAlive [OF a m g False True]
        by (auto simp: on_packet_def Let_def case_prod_beta acks_sent_append delivered_append)
    next
      case nk: False
      then show ?thesis
        using assms a m g ax False Data [OF a m g False nk]
        by (auto simp: on_packet_def Let_def case_prod_beta acks_sent_append delivered_append
            split: sum.splits)
    qed
  qed
qed


lemma deliver_slot_frame [simp]:
  "RecvWindowSize (deliver_slot r i) = RecvWindowSize r"
  "length (Rxq (deliver_slot r i)) = length (Rxq r)"
  "RcvdButNotConsumed (deliver_slot r i) = RcvdButNotConsumed r"
  "DiscardCount (deliver_slot r i) = DiscardCount r"
  "LargestSeqnoRcvd (deliver_slot r i) = LargestSeqnoRcvd r"
  "MaxCumulBytesTrans (deliver_slot r i) = MaxCumulBytesTrans r"
  "Inbox (deliver_slot r i) = Inbox r"
  "NextFrameExpected (deliver_slot r i) = NextFrameExpected r + 1"
  "RecvHistory (deliver_slot r i) = RecvHistory r @ [Pack (Rxq r ! i)]"
  "ReadyForDelivery (deliver_slot r i) = ReadyForDelivery r @ [Pack (Rxq r ! i)]"
  by (simp_all add: deliver_slot_def)

lemma deliver_loop_appends:
  "deliver_loop r i = Inr r' \<Longrightarrow>
   \<exists>added. RecvHistory r' = RecvHistory r @ added
          \<and> ReadyForDelivery r' = ReadyForDelivery r @ added"
proof (induction r i rule: deliver_loop.induct)
  case (1 r i)
  show ?case
  proof (cases "i < length (Rxq r) \<and> Received (Rxq r ! i)")
    case False
    then have "deliver_loop r i = Inr r" by (rule deliver_loop_stop)
    then show ?thesis using "1.prems" by simp
  next
    case True
    then obtain j where j: "rxq_index (deliver_slot r i) (NextFrameExpected (deliver_slot r i)) = Inr j"
      and rec: "deliver_loop (deliver_slot r i) j = Inr r'"
      using "1.prems"(1) by (simp add: deliver_loop_step split: sum.splits)
    from "1.IH" [OF True j rec] obtain added where
      "RecvHistory r' = RecvHistory (deliver_slot r i) @ added"
      "ReadyForDelivery r' = ReadyForDelivery (deliver_slot r i) @ added"
      by auto
    then have "RecvHistory r' = RecvHistory r @ (Pack (Rxq r ! i) # added)
      \<and> ReadyForDelivery r' = ReadyForDelivery r @ (Pack (Rxq r ! i) # added)"
      by simp
    then show ?thesis by blast
  qed
qed

lemma accept_data_appends:
  assumes "accept_data r pack = Inr (r', fx)"
  shows "\<exists>added. RecvHistory r' = RecvHistory r @ added
          \<and> ReadyForDelivery r' = ReadyForDelivery r @ added \<and> delivered fx = []"
  using assms
proof (cases rule: accept_data_cases)
  case (Discard i)
  then have "r' = fst (discard (hold r pack) pack)" "fx = snd (discard (hold r pack) pack)"
    by (metis fst_conv, metis snd_conv)
  then show ?thesis by simp
next
  case (Stored i)
  then show ?thesis by simp
next
  case (Delivered i r3)
  from deliver_loop_appends [OF Delivered(4)] obtain added where
    "RecvHistory r3 = RecvHistory r @ added" "ReadyForDelivery r3 = ReadyForDelivery r @ added"
    by auto
  moreover have "r' = fst (ack r3 (NextFrameExpected r3 - 1) (From pack))"
    "fx = snd (ack r3 (NextFrameExpected r3 - 1) (From pack))"
    using Delivered(5) by (metis fst_conv, metis snd_conv)
  ultimately show ?thesis by simp
qed

lemma on_packet_inv:
  assumes op: "on_packet r pack ac gc = Inr (r', fx)" and ring: "ring_ok r" and hist: "hist_ok r"
  shows "ring_ok r' \<and> hist_ok r'"
  using op
proof (cases rule: on_packet_cases)
  case (AckOnly fx0 r1)
  then show ?thesis
    using ring hist update_marks_frame [OF AckOnly(2)]
      ring_ok_cong [of r' r] hist_ok_cong [of r' r] by simp
next
  case (KeepAlive fx0 r1)
  then show ?thesis
    using ring hist update_marks_frame [OF KeepAlive(2)]
      ring_ok_cong [of r' r] hist_ok_cong [of r' r] by simp
next
  case (Data fx0 r1 fx3)
  have "ring_ok (fst (UpdateFlowControl r1))" "hist_ok (fst (UpdateFlowControl r1))"
    using ring hist update_marks_frame [OF Data(2)]
      ring_ok_cong [of "fst (UpdateFlowControl r1)" r]
      hist_ok_cong [of "fst (UpdateFlowControl r1)" r] by simp_all
  then show ?thesis using accept_data_inv [OF Data(6)] by simp
qed

lemma on_packet_appends:
  assumes op: "on_packet r pack ac gc = Inr (r', fx)"
  shows "\<exists>added. RecvHistory r' = RecvHistory r @ added
          \<and> ReadyForDelivery r' = ReadyForDelivery r @ added \<and> delivered fx = []"
  using op
proof (cases rule: on_packet_cases)
  case (AckOnly fx0 r1)
  then show ?thesis using update_marks_frame [OF AckOnly(2)] by simp
next
  case (KeepAlive fx0 r1)
  then show ?thesis using update_marks_frame [OF KeepAlive(2)] by simp
next
  case (Data fx0 r1 fx3)
  then show ?thesis
    using accept_data_appends [OF Data(6)] update_marks_frame [OF Data(2)] by simp
qed

lemma consume_frame:
  "consume r ps = Inr r' \<Longrightarrow>
   Rxq r' = Rxq r \<and> NextFrameExpected r' = NextFrameExpected r
   \<and> RecvWindowSize r' = RecvWindowSize r \<and> RecvHistory r' = RecvHistory r
   \<and> ReadyForDelivery r' = ReadyForDelivery r
   \<and> LargestSeqnoRcvd r' = LargestSeqnoRcvd r \<and> MaxCumulBytesTrans r' = MaxCumulBytesTrans r"
  by (induction r ps rule: consume.induct) auto

lemma deliver_to_consumer_frame:
  assumes "deliver_to_consumer r = Inr (r', fx)"
  shows "Rxq r' = Rxq r" "NextFrameExpected r' = NextFrameExpected r"
    "RecvWindowSize r' = RecvWindowSize r" "RecvHistory r' = RecvHistory r"
    "ReadyForDelivery r' = []" "fx = [Delivered (ReadyForDelivery r)]"
    "LargestSeqnoRcvd r' = LargestSeqnoRcvd r" "MaxCumulBytesTrans r' = MaxCumulBytesTrans r"
  using assms
  by (auto simp: deliver_to_consumer_def split: list.splits option.splits sum.splits
      dest!: consume_frame)

lemma recvloop_inv:
  assumes st: "recvloop r e = Inr (r', fx)" and ring: "ring_ok r" and hist: "hist_ok r"
  shows "ring_ok r' \<and> hist_ok r'"
proof (cases e)
  case (SetAsapHelper h)
  then show ?thesis
    using st ring hist ring_ok_cong [of r' r] hist_ok_cong [of r' r] by auto
next
  case HeldQuery
  then show ?thesis using st ring hist by auto
next
  case Deliver
  then show ?thesis
    using st ring hist deliver_to_consumer_frame [of r r' fx]
      ring_ok_cong [of r' r] hist_ok_cong [of r' r] by simp
next
  case ReqStop
  then show ?thesis using st by simp
next
  case (MsgRecv pack ac gc)
  then show ?thesis using st on_packet_inv [OF _ ring hist] by simp
qed

lemma recvloop_sync:
  assumes st: "recvloop r e = Inr (r', fx)"
    and sync: "pre @ ReadyForDelivery r = RecvHistory r"
  shows "(pre @ delivered fx) @ ReadyForDelivery r' = RecvHistory r'"
proof (cases e)
  case (SetAsapHelper h)
  then show ?thesis using st sync by (auto split: option.splits)
next
  case HeldQuery
  then show ?thesis using st sync by auto
next
  case Deliver
  then show ?thesis
    using st sync deliver_to_consumer_frame [of r r' fx] by simp
next
  case ReqStop
  then show ?thesis using st by simp
next
  case (MsgRecv pack ac gc)
  then have "on_packet r pack ac gc = Inr (r', fx)" using st by simp
  from on_packet_appends [OF this] show ?thesis using sync by auto
qed

lemma run_inv:
  "run r evs = Inr (r', fx) \<Longrightarrow> ring_ok r \<Longrightarrow> hist_ok r \<Longrightarrow>
   pre @ ReadyForDelivery r = RecvHistory r \<Longrightarrow>
   ring_ok r' \<and> hist_ok r' \<and> (pre @ delivered fx) @ ReadyForDelivery r' = RecvHistory r'"
proof (induction evs arbitrary: r fx pre)
  case Nil
  then show ?case by simp
next
  case (Cons e evs)
  from Cons.prems(1) obtain r1 fx1 fx2 where
    st: "recvloop r e = Inr (r1, fx1)" and rest: "run r1 evs = Inr (r', fx2)"
    and fx: "fx = fx1 @ fx2"
    by (auto split: sum.splits prod.splits)
  have i1: "ring_ok r1 \<and> hist_ok r1"
    using recvloop_inv [OF st Cons.prems(2) Cons.prems(3)] .
  have s1: "(pre @ delivered fx1) @ ReadyForDelivery r1 = RecvHistory r1"
    using recvloop_sync [OF st Cons.prems(4)] .
  from Cons.IH [OF rest _ _ s1] i1
  show ?case by (simp add: fx delivered_append)
qed

lemma NewRecvState_inv:
  assumes "NewRecvState recvSz recvSzBytes inbox = Inr r0"
  shows "ring_ok r0" "hist_ok r0" "ReadyForDelivery r0 = []" "RecvHistory r0 = []"
  using assms
  by (auto simp: NewRecvState_def ring_ok_def hist_ok_def empty_slot_def word_sless_alt
      split: if_splits)

text \<open>
  Claim C1. From a fresh \<open>RecvState\<close>, after any sequence of turns of the receive loop
  that the loop survives, whatever was lost, reordered or duplicated on the way:
  \<open>RecvHistory[i].SeqNum = i\<close> for every index \<open>i\<close>, \<open>NextFrameExpected\<close> is the length of
  \<open>RecvHistory\<close>, and the packets handed to the consumer, followed by those still in
  \<open>ReadyForDelivery\<close>, are exactly \<open>RecvHistory\<close>. Sequence numbers are \<open>int64\<close>, so the
  index is read as one.
\<close>

theorem RecvHistory_in_sequence:
  assumes "NewRecvState recvSz recvSzBytes inbox = Inr r0" and "run r0 evs = Inr (r, fx)"
  shows "NextFrameExpected r = of_nat (length (RecvHistory r))
    \<and> (\<forall>i < length (RecvHistory r). \<exists>p. RecvHistory r ! i = Some p \<and> SeqNum p = of_nat i)
    \<and> delivered fx @ ReadyForDelivery r = RecvHistory r"
proof -
  have "ring_ok r \<and> hist_ok r \<and> ([] @ delivered fx) @ ReadyForDelivery r = RecvHistory r"
    using run_inv [OF assms(2) NewRecvState_inv(1) [OF assms(1)] NewRecvState_inv(2) [OF assms(1)],
        of "[]"] NewRecvState_inv(3,4) [OF assms(1)]
    by simp
  then show ?thesis by (simp add: hist_ok_def)
qed

theorem RecvHistory_in_sequence_witness:
  "\<exists>r0 r fx.
     NewRecvState 4 100 ''B'' = Inr r0
     \<and> run r0 [MsgRecv (example_data 2 9 [6, 7, 8, 9]) AsapTimedOut GotAckSent,
               MsgRecv (example_data 0 3 [1, 2, 3]) AsapTimedOut GotAckSent,
               MsgRecv (example_data 0 3 [1, 2, 3]) AsapTimedOut GotAckSent,
               MsgRecv (example_data 1 5 [4, 5]) AsapTimedOut GotAckSent,
               Deliver] = Inr (r, fx)
     \<and> length (RecvHistory r) = 3
     \<and> NextFrameExpected r = of_nat (length (RecvHistory r))
     \<and> delivered fx @ ReadyForDelivery r = RecvHistory r"
proof -
  let ?evs = "[MsgRecv (example_data 2 9 [6, 7, 8, 9]) AsapTimedOut GotAckSent,
               MsgRecv (example_data 0 3 [1, 2, 3]) AsapTimedOut GotAckSent,
               MsgRecv (example_data 0 3 [1, 2, 3]) AsapTimedOut GotAckSent,
               MsgRecv (example_data 1 5 [4, 5]) AsapTimedOut GotAckSent,
               Deliver]"
  have "(case NewRecvState 4 100 ''B'' of
           Inl h \<Rightarrow> False
         | Inr r0 \<Rightarrow>
             (case run r0 ?evs of
                Inl h \<Rightarrow> False
              | Inr (r, fx) \<Rightarrow> length (RecvHistory r) = 3))"
    by code_simp
  then obtain r0 r fx where a: "NewRecvState 4 100 ''B'' = Inr r0"
    and b: "run r0 ?evs = Inr (r, fx)" and c: "length (RecvHistory r) = 3"
    by (auto split: sum.splits)
  from RecvHistory_in_sequence [OF a b] a b c show ?thesis by blast
qed

section \<open>The data branch: delivery in order, keep-alives, packets outside the window\<close>

lemma filter_clear_less:
  "k < length xs \<Longrightarrow> Received (xs ! k) \<Longrightarrow>
   length (filter Received (xs[k := \<lparr>Received = False, Pack = None\<rparr>]))
     < length (filter Received xs)"
proof (induction xs arbitrary: k)
  case Nil
  then show ?case by simp
next
  case (Cons x xs)
  then show ?case by (cases k) (fastforce simp: less_Suc_eq_le Suc_le_eq)+
qed

lemma smod_nonneg:
  fixes a w :: int
  assumes "0 \<le> a" "0 < w"
  shows "0 \<le> a smod w \<and> a smod w < w"
proof (cases "a = 0")
  case True
  then show ?thesis using assms by simp
next
  case False
  then have "a smod w = a mod w"
    using assms by (simp add: signed_modulo_int_def)
  then show ?thesis using assms by simp
qed

lemma rxq_index_nonneg:
  assumes "0 \<le> sint s" "0 < sint (RecvWindowSize r)"
    "length (Rxq r) = nat (sint (RecvWindowSize r))"
  shows "\<exists>i. rxq_index r s = Inr i"
proof -
  have "RecvWindowSize r \<noteq> 0" using assms(2) by auto
  then show ?thesis
    using smod_nonneg [OF assms(1) assms(2)] assms(3)
    by (simp add: rxq_index_def Let_def)
qed

lemma deliver_loop_frame:
  "deliver_loop r i = Inr r' \<Longrightarrow>
   length (Rxq r') = length (Rxq r) \<and> RecvWindowSize r' = RecvWindowSize r
   \<and> Inbox r' = Inbox r \<and> RcvdButNotConsumed r' = RcvdButNotConsumed r
   \<and> DiscardCount r' = DiscardCount r \<and> LargestSeqnoRcvd r' = LargestSeqnoRcvd r
   \<and> MaxCumulBytesTrans r' = MaxCumulBytesTrans r
   \<and> (\<forall>j < length (Rxq r). \<not> Received (Rxq r ! j) \<longrightarrow> Rxq r' ! j = Rxq r ! j)"
proof (induction r i rule: deliver_loop.induct)
  case (1 r i)
  show ?case
  proof (cases "i < length (Rxq r) \<and> Received (Rxq r ! i)")
    case False
    then have "deliver_loop r i = Inr r" by (rule deliver_loop_stop)
    then show ?thesis using "1.prems" by simp
  next
    case True
    then obtain j where j: "rxq_index (deliver_slot r i) (NextFrameExpected (deliver_slot r i)) = Inr j"
      and rec: "deliver_loop (deliver_slot r i) j = Inr r'"
      using "1.prems"(1) by (simp add: deliver_loop_step split: sum.splits)
    note ih = "1.IH" [OF True j rec]
    have "Rxq r' ! k = Rxq r ! k" if "k < length (Rxq r)" "\<not> Received (Rxq r ! k)" for k
    proof -
      have "k \<noteq> i" using that True by auto
      then have "Rxq (deliver_slot r i) ! k = Rxq r ! k" by (simp add: deliver_slot_def)
      then show ?thesis using ih that by simp
    qed
    then show ?thesis using ih by simp
  qed
qed

lemma deliver_loop_total:
  "ring_ok r \<Longrightarrow> rxq_index r (NextFrameExpected r) = Inr i \<Longrightarrow>
   0 \<le> sint (NextFrameExpected r) \<Longrightarrow>
   sint (NextFrameExpected r) + int (length (filter Received (Rxq r))) < 2 ^ 63 \<Longrightarrow>
   \<exists>added r'. deliver_loop r i = Inr r'
     \<and> (\<forall>j < length added. SeqNum (added ! j) = NextFrameExpected r + of_nat j)
     \<and> ReadyForDelivery r' = ReadyForDelivery r @ map Some added
     \<and> RecvHistory r' = RecvHistory r @ map Some added
     \<and> NextFrameExpected r' = NextFrameExpected r + of_nat (length added)
     \<and> (\<forall>j < length added. \<exists>k. rxq_index r (NextFrameExpected r + of_nat j) = Inr k
            \<and> Received (Rxq r ! k) \<and> Pack (Rxq r ! k) = Some (added ! j)
            \<and> Rxq r' ! k = \<lparr>Received = False, Pack = None\<rparr>)
     \<and> (\<exists>k. rxq_index r (NextFrameExpected r') = Inr k \<and> \<not> Received (Rxq r' ! k)
            \<and> (\<not> Received (Rxq r ! k)
                \<or> (\<exists>j < length added. rxq_index r (NextFrameExpected r + of_nat j) = Inr k)))
     \<and> (\<forall>m < length (Rxq r).
            (\<forall>j < length added. rxq_index r (NextFrameExpected r + of_nat j) \<noteq> Inr m) \<longrightarrow>
            Rxq r' ! m = Rxq r ! m)
     \<and> length added \<le> length (filter Received (Rxq r))
     \<and> (Received (Rxq r ! i) \<longrightarrow> added \<noteq> [] \<and> Pack (Rxq r ! i) = Some (hd added))"
proof (induction r i rule: deliver_loop.induct)
  case (1 r i)
  have il: "i < length (Rxq r)" using rxq_index_Inr(3) [OF "1.prems"(2)] .
  show ?case
  proof (cases "Received (Rxq r ! i)")
    case False
    then have "deliver_loop r i = Inr r" by (simp add: deliver_loop_stop)
    then have "deliver_loop r i = Inr r
     \<and> (\<forall>j < length ([] :: Packet list). SeqNum ([] ! j) = NextFrameExpected r + of_nat j)
     \<and> ReadyForDelivery r = ReadyForDelivery r @ map Some []
     \<and> RecvHistory r = RecvHistory r @ map Some []
     \<and> NextFrameExpected r = NextFrameExpected r + of_nat (length ([] :: Packet list))
     \<and> (\<forall>j < length ([] :: Packet list). \<exists>k. rxq_index r (NextFrameExpected r + of_nat j) = Inr k
            \<and> Received (Rxq r ! k) \<and> Pack (Rxq r ! k) = Some ([] ! j)
            \<and> Rxq r ! k = \<lparr>Received = False, Pack = None\<rparr>)
     \<and> (\<exists>k. rxq_index r (NextFrameExpected r) = Inr k \<and> \<not> Received (Rxq r ! k)
            \<and> (\<not> Received (Rxq r ! k)
                \<or> (\<exists>j < length ([] :: Packet list).
                      rxq_index r (NextFrameExpected r + of_nat j) = Inr k)))
     \<and> (\<forall>m < length (Rxq r).
            (\<forall>j < length ([] :: Packet list).
                rxq_index r (NextFrameExpected r + of_nat j) \<noteq> Inr m) \<longrightarrow>
            Rxq r ! m = Rxq r ! m)
     \<and> length ([] :: Packet list) \<le> length (filter Received (Rxq r))
     \<and> (Received (Rxq r ! i) \<longrightarrow> ([] :: Packet list) \<noteq> [] \<and> Pack (Rxq r ! i) = Some (hd []))"
      using False "1.prems"(2) by simp
    then show ?thesis by blast
  next
    case True
    let ?r1 = "deliver_slot r i"
    have cond: "i < length (Rxq r) \<and> Received (Rxq r ! i)" using il True by simp
    obtain p where p: "Pack (Rxq r ! i) = Some p" "SeqNum p = NextFrameExpected r"
      using ring_slot_is_next [OF "1.prems"(1) "1.prems"(2) True] by auto
    have ring1: "ring_ok ?r1"
      using deliver_slot_ring_ok [OF "1.prems"(1) "1.prems"(2) True] .
    have cnt: "length (filter Received (Rxq ?r1)) < length (filter Received (Rxq r))"
      using filter_clear_less [OF il True] by (simp add: deliver_slot_def)
    then have "sint (NextFrameExpected r) + 1 < 2 ^ 63"
      using "1.prems"(4) by arith
    then have "sint (NextFrameExpected r) \<noteq> 2 ^ 63 - 1" by arith
    then have s1: "sint (NextFrameExpected ?r1) = sint (NextFrameExpected r) + 1"
      using sint_inc by simp
    have n1: "0 \<le> sint (NextFrameExpected ?r1)" using s1 "1.prems"(3) by simp
    have b1: "sint (NextFrameExpected ?r1) + int (length (filter Received (Rxq ?r1))) < 2 ^ 63"
      using s1 cnt "1.prems"(4) by arith
    have wpos: "0 < sint (RecvWindowSize r)" and len: "length (Rxq r) = nat (sint (RecvWindowSize r))"
      using "1.prems"(1) il by (auto simp: ring_ok_def)
    obtain j where j: "rxq_index ?r1 (NextFrameExpected ?r1) = Inr j"
      using rxq_index_nonneg [of "NextFrameExpected ?r1" ?r1] n1 wpos len by auto
    have idx: "rxq_index ?r1 s = rxq_index r s" for s
      by (rule rxq_index_cong) simp_all
    have rx1: "Rxq ?r1 = (Rxq r)[i := \<lparr>Received = False, Pack = None\<rparr>]"
      by (simp add: deliver_slot_def)
    have other: "Rxq ?r1 ! m = Rxq r ! m" if "m \<noteq> i" for m
      using that by (simp add: rx1)
    have at_i: "\<not> Received (Rxq ?r1 ! i)" using il by (simp add: rx1)
    from "1.IH" [OF cond j ring1 j n1 b1] obtain added r' where
      ih: "deliver_loop ?r1 j = Inr r'"
        "\<forall>k < length added. SeqNum (added ! k) = NextFrameExpected ?r1 + of_nat k"
        "ReadyForDelivery r' = ReadyForDelivery ?r1 @ map Some added"
        "RecvHistory r' = RecvHistory ?r1 @ map Some added"
        "NextFrameExpected r' = NextFrameExpected ?r1 + of_nat (length added)"
        "\<forall>k < length added. \<exists>m. rxq_index ?r1 (NextFrameExpected ?r1 + of_nat k) = Inr m
            \<and> Received (Rxq ?r1 ! m) \<and> Pack (Rxq ?r1 ! m) = Some (added ! k)
            \<and> Rxq r' ! m = \<lparr>Received = False, Pack = None\<rparr>"
        "\<exists>k. rxq_index ?r1 (NextFrameExpected r') = Inr k \<and> \<not> Received (Rxq r' ! k)
            \<and> (\<not> Received (Rxq ?r1 ! k)
                \<or> (\<exists>n < length added. rxq_index ?r1 (NextFrameExpected ?r1 + of_nat n) = Inr k))"
        "\<forall>m < length (Rxq ?r1).
            (\<forall>n < length added. rxq_index ?r1 (NextFrameExpected ?r1 + of_nat n) \<noteq> Inr m) \<longrightarrow>
            Rxq r' ! m = Rxq ?r1 ! m"
        "length added \<le> length (filter Received (Rxq ?r1))"
      by blast
    have dl: "deliver_loop r i = Inr r'"
      using ih(1) j cond by (simp add: deliver_loop_step)
    have fr: "\<forall>k < length (Rxq ?r1). \<not> Received (Rxq ?r1 ! k) \<longrightarrow> Rxq r' ! k = Rxq ?r1 ! k"
      using deliver_loop_frame [OF ih(1)] by simp
    have ci: "Rxq r' ! i = \<lparr>Received = False, Pack = None\<rparr>"
      using fr il by (simp add: deliver_slot_def)
    have sh: "NextFrameExpected ?r1 + of_nat n = NextFrameExpected r + of_nat (Suc n)" for n
      by simp
    have i0: "rxq_index r (NextFrameExpected r + of_nat 0) = Inr i"
      using "1.prems"(2) by simp
    have c1: "\<forall>k < length (p # added). SeqNum ((p # added) ! k) = NextFrameExpected r + of_nat k"
      using ih(2) p(2) by (auto simp: nth_Cons split: nat.splits)
    have c2: "ReadyForDelivery r' = ReadyForDelivery r @ map Some (p # added)"
      using ih(3) p(1) by simp
    have c3: "RecvHistory r' = RecvHistory r @ map Some (p # added)"
      using ih(4) p(1) by simp
    have c4: "NextFrameExpected r' = NextFrameExpected r + of_nat (length (p # added))"
      using ih(5) by simp
    have c5: "\<forall>k < length (p # added). \<exists>m. rxq_index r (NextFrameExpected r + of_nat k) = Inr m
            \<and> Received (Rxq r ! m) \<and> Pack (Rxq r ! m) = Some ((p # added) ! k)
            \<and> Rxq r' ! m = \<lparr>Received = False, Pack = None\<rparr>"
    proof (intro allI impI)
      fix k assume k: "k < length (p # added)"
      show "\<exists>m. rxq_index r (NextFrameExpected r + of_nat k) = Inr m
            \<and> Received (Rxq r ! m) \<and> Pack (Rxq r ! m) = Some ((p # added) ! k)
            \<and> Rxq r' ! m = \<lparr>Received = False, Pack = None\<rparr>"
      proof (cases k)
        case 0
        then show ?thesis using "1.prems"(2) ci True p(1) by simp
      next
        case (Suc k')
        then have "k' < length added" using k by simp
        then obtain m where m: "rxq_index ?r1 (NextFrameExpected ?r1 + of_nat k') = Inr m"
          "Received (Rxq ?r1 ! m)" "Pack (Rxq ?r1 ! m) = Some (added ! k')"
          "Rxq r' ! m = \<lparr>Received = False, Pack = None\<rparr>"
          using ih(6) by blast
        have mi: "m \<noteq> i" using m(2) at_i by auto
        have "rxq_index r (NextFrameExpected ?r1 + of_nat k') = Inr m"
          using m(1) idx by simp
        then have "rxq_index r (NextFrameExpected r + of_nat k) = Inr m"
          unfolding sh Suc .
        moreover have "Received (Rxq r ! m)" "Pack (Rxq r ! m) = Some ((p # added) ! k)"
          using m(2,3) other [OF mi] Suc by simp_all
        ultimately show ?thesis using m(4) by blast
      qed
    qed
    have c6: "\<exists>k. rxq_index r (NextFrameExpected r') = Inr k \<and> \<not> Received (Rxq r' ! k)
            \<and> (\<not> Received (Rxq r ! k)
                \<or> (\<exists>n < length (p # added). rxq_index r (NextFrameExpected r + of_nat n) = Inr k))"
    proof -
      from ih(7) obtain k where k: "rxq_index ?r1 (NextFrameExpected r') = Inr k"
        "\<not> Received (Rxq r' ! k)"
        "\<not> Received (Rxq ?r1 ! k)
          \<or> (\<exists>n < length added. rxq_index ?r1 (NextFrameExpected ?r1 + of_nat n) = Inr k)"
        by blast
      have k1: "rxq_index r (NextFrameExpected r') = Inr k" using k(1) idx by simp
      have "\<not> Received (Rxq r ! k)
                \<or> (\<exists>n < length (p # added). rxq_index r (NextFrameExpected r + of_nat n) = Inr k)"
      proof (cases "k = i")
        case True
        have "0 < length (p # added)" by simp
        then show ?thesis using i0 True by blast
      next
        case False
        from k(3) show ?thesis
        proof
          assume "\<not> Received (Rxq ?r1 ! k)"
          then show ?thesis using other [OF False] by simp
        next
          assume "\<exists>n < length added. rxq_index ?r1 (NextFrameExpected ?r1 + of_nat n) = Inr k"
          then obtain n where n: "n < length added"
            "rxq_index ?r1 (NextFrameExpected ?r1 + of_nat n) = Inr k" by blast
          have "rxq_index r (NextFrameExpected ?r1 + of_nat n) = Inr k" using n(2) idx by simp
          then have "rxq_index r (NextFrameExpected r + of_nat (Suc n)) = Inr k"
            unfolding sh .
          moreover have "Suc n < length (p # added)" using n(1) by simp
          ultimately show ?thesis by blast
        qed
      qed
      then show ?thesis using k1 k(2) by blast
    qed
    have c7: "\<forall>m < length (Rxq r).
            (\<forall>n < length (p # added). rxq_index r (NextFrameExpected r + of_nat n) \<noteq> Inr m) \<longrightarrow>
            Rxq r' ! m = Rxq r ! m"
    proof (intro allI impI)
      fix m assume m: "m < length (Rxq r)"
        and un: "\<forall>n < length (p # added). rxq_index r (NextFrameExpected r + of_nat n) \<noteq> Inr m"
      have "0 < length (p # added)" by simp
      then have "rxq_index r (NextFrameExpected r + of_nat 0) \<noteq> Inr m" using un by blast
      then have mi: "m \<noteq> i" using i0 by auto
      have "\<forall>n < length added. rxq_index ?r1 (NextFrameExpected ?r1 + of_nat n) \<noteq> Inr m"
      proof (intro allI impI)
        fix n assume "n < length added"
        then have "Suc n < length (p # added)" by simp
        then have "rxq_index r (NextFrameExpected r + of_nat (Suc n)) \<noteq> Inr m" using un by blast
        then have "rxq_index r (NextFrameExpected ?r1 + of_nat n) \<noteq> Inr m"
          unfolding sh .
        then show "rxq_index ?r1 (NextFrameExpected ?r1 + of_nat n) \<noteq> Inr m"
          using idx by simp
      qed
      moreover have "m < length (Rxq ?r1)" using m by simp
      ultimately have "Rxq r' ! m = Rxq ?r1 ! m" using ih(8) by blast
      then show "Rxq r' ! m = Rxq r ! m" using other [OF mi] by simp
    qed
    have c8: "length (p # added) \<le> length (filter Received (Rxq r))"
      using ih(9) cnt by simp
    have c9: "Received (Rxq r ! i) \<longrightarrow> p # added \<noteq> [] \<and> Pack (Rxq r ! i) = Some (hd (p # added))"
      using p(1) by simp
    from dl c1 c2 c3 c4 c5 c6 c7 c8 c9 show ?thesis by blast
  qed
qed

lemma offer_asap_no_stop: "ac \<noteq> AsapStop \<Longrightarrow> \<exists>fx0. offer_asap r pack ac = Inr fx0"
  by (cases ac) (simp_all add: offer_asap_def)

lemma on_packet_data:
  assumes "\<not> AckOnly pack" "\<not> KeepAlive pack" "ac \<noteq> AsapStop" "gc = GotAckSent"
    and "update_marks r pack = Inr r1"
    and "accept_data (fst (UpdateFlowControl r1)) pack = Inr (r', fx3)"
  shows "\<exists>fx. on_packet r pack ac gc = Inr (r', fx) \<and> acks_sent fx = acks_sent fx3"
proof -
  obtain fx0 where a: "offer_asap r pack ac = Inr fx0"
    using offer_asap_no_stop [OF assms(3)] by blast
  have ax: "acks_sent fx0 = []"
    using a by (auto simp: offer_asap_def split: if_splits asap_choice.splits)
  show ?thesis
    using assms a ax
    by (simp add: on_packet_def Let_def case_prod_beta acks_sent_append)
qed

text \<open>
  Claim C2, as stated, fails: the data branch is only reached through the two assertions
  on \<open>CumulBytesTransmitted\<close> and the two inner \<open>select\<close> statements. A receiver with a
  window of 4 that holds packet 1 (5 bytes transmitted in all) gets packet 0 carrying
  \<open>CumulBytesTransmitted = 7\<close>: its \<open>SeqNum\<close> is \<open>NextFrameExpected\<close> and inside the
  window, and the loop panics in the first assertion; nothing is delivered and no ack is
  sent. The same receiver gets packet 0 with the right byte count while the session
  stops: the send on \<open>GotAck\<close> loses to \<open>ReqStop\<close> and the loop returns before the ring
  is touched.
\<close>

theorem next_frame_counterexample:
  "(case NewRecvState 4 100 ''B'' of
      Inl h \<Rightarrow> False
    | Inr r0 \<Rightarrow>
        (case run r0 [MsgRecv (example_data 1 5 [4, 5]) AsapTimedOut GotAckSent] of
           Inl h \<Rightarrow> False
         | Inr (r, fx0) \<Rightarrow>
             \<not> AckOnly (example_data 0 7 [1, 2, 3]) \<and> \<not> KeepAlive (example_data 0 7 [1, 2, 3])
             \<and> SeqNum (example_data 0 7 [1, 2, 3]) = NextFrameExpected r
             \<and> InWindow (SeqNum (example_data 0 7 [1, 2, 3])) (NextFrameExpected r)
                  (NextFrameExpected r + RecvWindowSize r - 1)
             \<and> on_packet r (example_data 0 7 [1, 2, 3]) AsapTimedOut GotAckSent
                 = Inl PanicCumulOrder
             \<and> on_packet r (example_data 0 3 [1, 2, 3]) AsapTimedOut GotAckStop
                 = Inl Stopped))"
  by code_simp

text \<open>
  Claim C2, amended. In a state \<open>r\<close> that the receive loop reached from a fresh
  \<open>RecvState\<close>, let a data packet arrive whose \<open>SeqNum\<close> is \<open>NextFrameExpected\<close> and
  inside the window, and let it get to the data branch: no shutdown branch is taken,
  both assertions on \<open>CumulBytesTransmitted\<close> pass, and the window ends below the largest
  \<open>int64\<close>. Then the packets \<open>added\<close> are appended to \<open>ReadyForDelivery\<close> and to
  \<open>RecvHistory\<close>, where \<open>added\<close> is the contiguous run: the new packet first, then for
  each following sequence number the packet that the slot of this number held as
  received in \<open>r\<close>, in ascending order from \<open>NextFrameExpected\<close> on. Each slot of the run
  is cleared, every other slot is as it was in \<open>r\<close>, and \<open>NextFrameExpected\<close> advances
  past the run to the first sequence number whose slot is not received: the slot was
  not received in \<open>r\<close>, or it is a slot of the run (the window was full). The packet is
  entered in \<open>RcvdButNotConsumed\<close>, \<open>DiscardCount\<close> is unchanged, and exactly one ack-only
  packet is sent, with \<open>AckNum = NextFrameExpected - 1\<close>, to the sender of the packet.
\<close>

theorem next_frame_delivers_run:
  assumes fresh: "NewRecvState recvSz recvSzBytes inbox = Inr r0"
    and reach: "run r0 evs = Inr (r, fx0)"
    and data: "\<not> AckOnly pack" "\<not> KeepAlive pack"
    and nxt: "SeqNum pack = NextFrameExpected r"
    and win: "InWindow (SeqNum pack) (NextFrameExpected r)
                (NextFrameExpected r + RecvWindowSize r - 1)"
    and nostop: "ac \<noteq> AsapStop" "gc = GotAckSent"
    and marks: "\<not> isl (update_marks r pack)"
    and lim: "0 \<le> sint (NextFrameExpected r)"
      "sint (NextFrameExpected r) + sint (RecvWindowSize r) < 2 ^ 63"
  shows "\<exists>added r' fx.
      on_packet r pack ac gc = Inr (r', fx)
      \<and> added \<noteq> [] \<and> hd added = pack
      \<and> (\<forall>j < length added. SeqNum (added ! j) = NextFrameExpected r + of_nat j)
      \<and> (\<forall>j < length added. 0 < j \<longrightarrow>
            (\<exists>k. rxq_index r (NextFrameExpected r + of_nat j) = Inr k
                 \<and> Received (Rxq r ! k) \<and> Pack (Rxq r ! k) = Some (added ! j)))
      \<and> ReadyForDelivery r' = ReadyForDelivery r @ map Some added
      \<and> RecvHistory r' = RecvHistory r @ map Some added
      \<and> NextFrameExpected r' = NextFrameExpected r + of_nat (length added)
      \<and> length (Rxq r') = length (Rxq r)
      \<and> (\<forall>j < length added. \<exists>k. rxq_index r (NextFrameExpected r + of_nat j) = Inr k
             \<and> Rxq r' ! k = \<lparr>Received = False, Pack = None\<rparr>)
      \<and> (\<forall>m < length (Rxq r).
             (\<forall>j < length added. rxq_index r (NextFrameExpected r + of_nat j) \<noteq> Inr m) \<longrightarrow>
             Rxq r' ! m = Rxq r ! m)
      \<and> (\<exists>k. rxq_index r (NextFrameExpected r') = Inr k \<and> \<not> Received (Rxq r' ! k)
             \<and> (\<not> Received (Rxq r ! k)
                 \<or> (\<exists>j < length added. rxq_index r (NextFrameExpected r + of_nat j) = Inr k)))
      \<and> RcvdButNotConsumed r' = (RcvdButNotConsumed r)(SeqNum pack \<mapsto> pack)
      \<and> DiscardCount r' = DiscardCount r
      \<and> acks_sent fx =
          [zero_Packet\<lparr>From := Inbox r, Dest := From pack, SeqNum := - 99,
                       AckNum := NextFrameExpected r' - 1, AckOnly := True,
                       AvailReaderBytesCap := LastAvailReaderBytesCap r',
                       AvailReaderMsgCap := LastAvailReaderMsgCap r'\<rparr>]"
proof -
  have ring: "ring_ok r"
    using run_inv [OF reach NewRecvState_inv(1) [OF fresh] NewRecvState_inv(2) [OF fresh], of "[]"]
      NewRecvState_inv(3,4) [OF fresh] by simp
  obtain r1 where r1: "update_marks r pack = Inr r1"
    using marks by (cases "update_marks r pack") auto
  let ?r2 = "hold (fst (UpdateFlowControl r1)) pack"
  have f2: "Rxq ?r2 = Rxq r" "NextFrameExpected ?r2 = NextFrameExpected r"
    "RecvWindowSize ?r2 = RecvWindowSize r" "RecvHistory ?r2 = RecvHistory r"
    "ReadyForDelivery ?r2 = ReadyForDelivery r" "Inbox ?r2 = Inbox r"
    "DiscardCount ?r2 = DiscardCount r"
    using update_marks_frame [OF r1] by simp_all
  have "NextFrameExpected (fst (UpdateFlowControl r1)) \<le>s SeqNum pack"
    using nxt update_marks_frame(2) [OF r1] by simp
  then have held: "RcvdButNotConsumed ?r2 = (RcvdButNotConsumed r)(SeqNum pack \<mapsto> pack)"
    using update_marks_frame(6) [OF r1] by (simp add: hold_def)
  have ring2: "ring_ok ?r2" using ring ring_ok_cong [OF f2(1) f2(2) f2(3)] by simp
  have w0: "0 \<le> sint (RecvWindowSize r)" and len: "length (Rxq r) = nat (sint (RecvWindowSize r))"
    using ring by (auto simp: ring_ok_def)
  have wpos: "0 < sint (RecvWindowSize r)"
  proof (rule ccontr)
    assume "\<not> 0 < sint (RecvWindowSize r)"
    then have "sint (RecvWindowSize r) = 0" using w0 by arith
    then have z: "RecvWindowSize r = 0" by (metis signed_word_eqI sint_0)
    have "sint (NextFrameExpected r) \<noteq> - (2 ^ 63)" using lim(1) by simp
    have "- (2 ^ 63) \<le> sint (NextFrameExpected r) - 1 \<and> sint (NextFrameExpected r) - 1 < 2 ^ 63"
      using sint64_bounds [of "NextFrameExpected r"] lim(1) by simp
    then have "sint (NextFrameExpected r - 1) = sint (NextFrameExpected r) - 1"
      by (simp add: sint_word_ariths signed_take_bit_int_eq_self)
    then have "NextFrameExpected r - 1 <s NextFrameExpected r"
      by (simp add: word_sless_alt)
    then show False using win nxt z by (simp add: InWindow_def split: if_splits)
  qed
  obtain i where i: "rxq_index ?r2 (SeqNum pack) = Inr i"
    using rxq_index_nonneg [of "SeqNum pack" ?r2] lim(1) nxt wpos len f2 by auto
  let ?r3 = "store ?r2 i pack"
  have win2: "InWindow (SeqNum pack) (NextFrameExpected ?r2)
                (NextFrameExpected ?r2 + RecvWindowSize ?r2 - 1)"
    using win f2 by simp
  have ring3: "ring_ok ?r3" using store_ring_ok [OF ring2 i win2] .
  have il: "i < length (Rxq ?r2)" using rxq_index_Inr(3) [OF i] .
  have ilr: "i < length (Rxq r)" using il f2 by simp
  have idx3: "rxq_index ?r3 (NextFrameExpected ?r3) = Inr i"
    using i nxt f2 rxq_index_cong [of ?r3 ?r2 "SeqNum pack"] by simp
  have "length (filter Received (Rxq ?r3)) \<le> length (Rxq ?r3)" by (rule length_filter_le)
  then have cntle: "length (filter Received (Rxq ?r3)) \<le> nat (sint (RecvWindowSize r))"
    using len f2 by simp
  then have "int (length (filter Received (Rxq ?r3))) \<le> sint (RecvWindowSize r)"
    using w0 by linarith
  then have b3: "sint (NextFrameExpected ?r3) + int (length (filter Received (Rxq ?r3))) < 2 ^ 63"
    using lim(2) f2 by simp
  have n3: "0 \<le> sint (NextFrameExpected ?r3)" using lim(1) f2 by simp
  have rx3: "Rxq ?r3 = (Rxq r)[i := \<lparr>Received = True, Pack = Some pack\<rparr>]"
    using f2 by simp
  have rcv3: "Received (Rxq ?r3 ! i)" "Pack (Rxq ?r3 ! i) = Some pack"
    using il by simp_all
  have other: "Rxq ?r3 ! m = Rxq r ! m" if "m \<noteq> i" for m
    using that f2(1) by simp
  have idx_r: "rxq_index ?r3 s = rxq_index r s" for s
    by (rule rxq_index_cong) (simp_all add: update_marks_frame [OF r1])
  have n3e: "NextFrameExpected ?r3 = NextFrameExpected r" using f2 by simp
  from deliver_loop_total [OF ring3 idx3 n3 b3] obtain added r4 where
    dl: "deliver_loop ?r3 i = Inr r4"
    and c1: "\<forall>j < length added. SeqNum (added ! j) = NextFrameExpected ?r3 + of_nat j"
    and c2: "ReadyForDelivery r4 = ReadyForDelivery ?r3 @ map Some added"
    and c3: "RecvHistory r4 = RecvHistory ?r3 @ map Some added"
    and c4: "NextFrameExpected r4 = NextFrameExpected ?r3 + of_nat (length added)"
    and c5: "\<forall>j < length added. \<exists>k. rxq_index ?r3 (NextFrameExpected ?r3 + of_nat j) = Inr k
             \<and> Received (Rxq ?r3 ! k) \<and> Pack (Rxq ?r3 ! k) = Some (added ! j)
             \<and> Rxq r4 ! k = \<lparr>Received = False, Pack = None\<rparr>"
    and c6: "\<exists>k. rxq_index ?r3 (NextFrameExpected r4) = Inr k \<and> \<not> Received (Rxq r4 ! k)
            \<and> (\<not> Received (Rxq ?r3 ! k)
                \<or> (\<exists>j < length added.
                      rxq_index ?r3 (NextFrameExpected ?r3 + of_nat j) = Inr k))"
    and c7: "\<forall>m < length (Rxq ?r3).
            (\<forall>j < length added. rxq_index ?r3 (NextFrameExpected ?r3 + of_nat j) \<noteq> Inr m) \<longrightarrow>
            Rxq r4 ! m = Rxq ?r3 ! m"
    and c8: "length added \<le> length (filter Received (Rxq ?r3))"
    and c9': "Received (Rxq ?r3 ! i) \<longrightarrow> added \<noteq> [] \<and> Pack (Rxq ?r3 ! i) = Some (hd added)"
    by blast
  have c9: "added \<noteq> []" "hd added = pack"
    using c9' rcv3 by simp_all
  have fr4: "length (Rxq r4) = length (Rxq ?r3)" "RecvWindowSize r4 = RecvWindowSize ?r3"
    "Inbox r4 = Inbox ?r3" "RcvdButNotConsumed r4 = RcvdButNotConsumed ?r3"
    "DiscardCount r4 = DiscardCount ?r3"
    using deliver_loop_frame [OF dl] by simp_all
  have i0: "rxq_index r (NextFrameExpected r + of_nat 0) = Inr i"
    using idx3 idx_r n3e by simp
  have pos: "0 < length added" using c9(1) by simp
  have small: "length added < 2 ^ 64"
  proof -
    have "sint (RecvWindowSize r) < 2 ^ 63" using sint64_bounds [of "RecvWindowSize r"] by simp
    then have "sint (RecvWindowSize r) < 2 ^ 64" by simp
    then have "nat (sint (RecvWindowSize r)) < 2 ^ 64" using w0 by (simp add: nat_less_iff)
    then show ?thesis using c8 cntle by linarith
  qed
  have d1: "\<forall>j < length added. SeqNum (added ! j) = NextFrameExpected r + of_nat j"
    using c1 n3e by simp
  have d5: "\<forall>j < length added. \<exists>k. rxq_index r (NextFrameExpected r + of_nat j) = Inr k
             \<and> Received (Rxq ?r3 ! k) \<and> Pack (Rxq ?r3 ! k) = Some (added ! j)
             \<and> Rxq r4 ! k = \<lparr>Received = False, Pack = None\<rparr>"
    using c5 idx_r n3e by simp
  have e1: "\<forall>j < length added. 0 < j \<longrightarrow>
            (\<exists>k. rxq_index r (NextFrameExpected r + of_nat j) = Inr k
                 \<and> Received (Rxq r ! k) \<and> Pack (Rxq r ! k) = Some (added ! j))"
  proof (intro allI impI)
    fix j assume j: "j < length added" "0 < j"
    from d5 j(1) obtain k where k: "rxq_index r (NextFrameExpected r + of_nat j) = Inr k"
      "Received (Rxq ?r3 ! k)" "Pack (Rxq ?r3 ! k) = Some (added ! j)" by blast
    have ki: "k \<noteq> i"
    proof
      assume "k = i"
      then have "added ! j = pack" using k(3) rcv3(2) by simp
      then have "NextFrameExpected r + of_nat j = NextFrameExpected r"
        using d1 j(1) nxt by metis
      then have z: "(of_nat j :: 64 word) = 0" by simp
      have "j < 2 ^ 64" using j(1) small by simp
      then have "unat (of_nat j :: 64 word) = j" by (simp add: unsigned_of_nat take_bit_nat_eq_self)
      then show False using z j(2) by simp
    qed
    show "\<exists>k. rxq_index r (NextFrameExpected r + of_nat j) = Inr k
                 \<and> Received (Rxq r ! k) \<and> Pack (Rxq r ! k) = Some (added ! j)"
      using k other [OF ki] by auto
  qed
  have e5: "\<forall>j < length added. \<exists>k. rxq_index r (NextFrameExpected r + of_nat j) = Inr k
             \<and> Rxq r4 ! k = \<lparr>Received = False, Pack = None\<rparr>"
    using d5 by blast
  have e7: "\<forall>m < length (Rxq r).
             (\<forall>j < length added. rxq_index r (NextFrameExpected r + of_nat j) \<noteq> Inr m) \<longrightarrow>
             Rxq r4 ! m = Rxq r ! m"
  proof (intro allI impI)
    fix m assume m: "m < length (Rxq r)"
      and un: "\<forall>j < length added. rxq_index r (NextFrameExpected r + of_nat j) \<noteq> Inr m"
    have "rxq_index r (NextFrameExpected r + of_nat 0) \<noteq> Inr m" using un pos by blast
    then have mi: "m \<noteq> i" using i0 by auto
    have "m < length (Rxq ?r3)" using m rx3 by simp
    moreover have "\<forall>j < length added.
        rxq_index ?r3 (NextFrameExpected ?r3 + of_nat j) \<noteq> Inr m"
      using un idx_r n3e by simp
    ultimately have "Rxq r4 ! m = Rxq ?r3 ! m" using c7 by blast
    then show "Rxq r4 ! m = Rxq r ! m" using other [OF mi] by simp
  qed
  have e6: "\<exists>k. rxq_index r (NextFrameExpected r4) = Inr k \<and> \<not> Received (Rxq r4 ! k)
             \<and> (\<not> Received (Rxq r ! k)
                 \<or> (\<exists>j < length added. rxq_index r (NextFrameExpected r + of_nat j) = Inr k))"
  proof -
    from c6 obtain k where k: "rxq_index r (NextFrameExpected r4) = Inr k"
      "\<not> Received (Rxq r4 ! k)"
      "\<not> Received (Rxq ?r3 ! k)
         \<or> (\<exists>j < length added. rxq_index r (NextFrameExpected r + of_nat j) = Inr k)"
      using idx_r n3e by auto
    have "\<not> Received (Rxq r ! k)
                 \<or> (\<exists>j < length added. rxq_index r (NextFrameExpected r + of_nat j) = Inr k)"
    proof (cases "k = i")
      case True
      then show ?thesis using i0 pos by blast
    next
      case False
      then show ?thesis using k(3) other [OF False] by auto
    qed
    then show ?thesis using k(1,2) by blast
  qed
  let ?a = "ack r4 (NextFrameExpected r4 - 1) (From pack)"
  have acc: "accept_data (fst (UpdateFlowControl r1)) pack = Inr (fst ?a, snd ?a)"
    using i win2 nxt f2 dl
    by (simp add: accept_data_def Let_def)
  obtain fx where op: "on_packet r pack ac gc = Inr (fst ?a, fx)"
    and ak: "acks_sent fx = acks_sent (snd ?a)"
    using on_packet_data [OF data nostop r1 acc] by blast
  have caps: "LastAvailReaderBytesCap (fst ?a) = LastAvailReaderBytesCap (fst (UpdateFlowControl r4))"
    "LastAvailReaderMsgCap (fst ?a) = LastAvailReaderMsgCap (fst (UpdateFlowControl r4))"
    by (simp_all add: ack_fst)
  have g: "Rxq (fst ?a) = Rxq r4" "NextFrameExpected (fst ?a) = NextFrameExpected r4"
    "ReadyForDelivery (fst ?a) = ReadyForDelivery r4" "RecvHistory (fst ?a) = RecvHistory r4"
    "RcvdButNotConsumed (fst ?a) = RcvdButNotConsumed r4" "DiscardCount (fst ?a) = DiscardCount r4"
    by simp_all
  have t2: "ReadyForDelivery (fst ?a) = ReadyForDelivery r @ map Some added"
    using c2 f2 g by simp
  have t3: "RecvHistory (fst ?a) = RecvHistory r @ map Some added"
    using c3 f2 g by simp
  have t4: "NextFrameExpected (fst ?a) = NextFrameExpected r + of_nat (length added)"
    using c4 f2 g by simp
  have t4l: "length (Rxq (fst ?a)) = length (Rxq r)"
    using fr4(1) f2(1) g by simp
  have t5: "\<forall>j < length added. \<exists>k. rxq_index r (NextFrameExpected r + of_nat j) = Inr k
             \<and> Rxq (fst ?a) ! k = \<lparr>Received = False, Pack = None\<rparr>"
    using e5 unfolding g .
  have t7: "\<forall>m < length (Rxq r).
             (\<forall>j < length added. rxq_index r (NextFrameExpected r + of_nat j) \<noteq> Inr m) \<longrightarrow>
             Rxq (fst ?a) ! m = Rxq r ! m"
    using e7 unfolding g .
  have t6: "\<exists>k. rxq_index r (NextFrameExpected (fst ?a)) = Inr k \<and> \<not> Received (Rxq (fst ?a) ! k)
             \<and> (\<not> Received (Rxq r ! k)
                 \<or> (\<exists>j < length added. rxq_index r (NextFrameExpected r + of_nat j) = Inr k))"
    using e6 unfolding g .
  have t8: "RcvdButNotConsumed (fst ?a) = (RcvdButNotConsumed r)(SeqNum pack \<mapsto> pack)"
    using held fr4 g by simp
  have t9: "DiscardCount (fst ?a) = DiscardCount r"
    using f2 fr4 g by simp
  have t10: "acks_sent fx =
          [zero_Packet\<lparr>From := Inbox r, Dest := From pack, SeqNum := - 99,
                       AckNum := NextFrameExpected (fst ?a) - 1, AckOnly := True,
                       AvailReaderBytesCap := LastAvailReaderBytesCap (fst ?a),
                       AvailReaderMsgCap := LastAvailReaderMsgCap (fst ?a)\<rparr>]"
    using ak f2 fr4 caps g by (simp add: ack_acks_sent)
  have "on_packet r pack ac gc = Inr (fst ?a, fx)
      \<and> added \<noteq> [] \<and> hd added = pack
      \<and> (\<forall>j < length added. SeqNum (added ! j) = NextFrameExpected r + of_nat j)
      \<and> (\<forall>j < length added. 0 < j \<longrightarrow>
            (\<exists>k. rxq_index r (NextFrameExpected r + of_nat j) = Inr k
                 \<and> Received (Rxq r ! k) \<and> Pack (Rxq r ! k) = Some (added ! j)))
      \<and> ReadyForDelivery (fst ?a) = ReadyForDelivery r @ map Some added
      \<and> RecvHistory (fst ?a) = RecvHistory r @ map Some added
      \<and> NextFrameExpected (fst ?a) = NextFrameExpected r + of_nat (length added)
      \<and> length (Rxq (fst ?a)) = length (Rxq r)
      \<and> (\<forall>j < length added. \<exists>k. rxq_index r (NextFrameExpected r + of_nat j) = Inr k
             \<and> Rxq (fst ?a) ! k = \<lparr>Received = False, Pack = None\<rparr>)
      \<and> (\<forall>m < length (Rxq r).
             (\<forall>j < length added. rxq_index r (NextFrameExpected r + of_nat j) \<noteq> Inr m) \<longrightarrow>
             Rxq (fst ?a) ! m = Rxq r ! m)
      \<and> (\<exists>k. rxq_index r (NextFrameExpected (fst ?a)) = Inr k \<and> \<not> Received (Rxq (fst ?a) ! k)
             \<and> (\<not> Received (Rxq r ! k)
                 \<or> (\<exists>j < length added. rxq_index r (NextFrameExpected r + of_nat j) = Inr k)))
      \<and> RcvdButNotConsumed (fst ?a) = (RcvdButNotConsumed r)(SeqNum pack \<mapsto> pack)
      \<and> DiscardCount (fst ?a) = DiscardCount r
      \<and> acks_sent fx =
          [zero_Packet\<lparr>From := Inbox r, Dest := From pack, SeqNum := - 99,
                       AckNum := NextFrameExpected (fst ?a) - 1, AckOnly := True,
                       AvailReaderBytesCap := LastAvailReaderBytesCap (fst ?a),
                       AvailReaderMsgCap := LastAvailReaderMsgCap (fst ?a)\<rparr>]"
    by (intro conjI) (rule op c9 d1 e1 t2 t3 t4 t4l t5 t7 t6 t8 t9 t10)+
  then show ?thesis by blast
qed

theorem next_frame_delivers_run_witness:
  "\<exists>r0 r fx0 r' fx.
     NewRecvState 4 100 ''B'' = Inr r0
     \<and> run r0 [MsgRecv (example_data 1 5 [4, 5]) AsapTimedOut GotAckSent,
               MsgRecv (example_data 3 9 [8, 9]) AsapTimedOut GotAckSent] = Inr (r, fx0)
     \<and> SeqNum (example_data 0 3 [1, 2, 3]) = NextFrameExpected r
     \<and> InWindow (SeqNum (example_data 0 3 [1, 2, 3])) (NextFrameExpected r)
          (NextFrameExpected r + RecvWindowSize r - 1)
     \<and> \<not> isl (update_marks r (example_data 0 3 [1, 2, 3]))
     \<and> 0 \<le> sint (NextFrameExpected r)
     \<and> sint (NextFrameExpected r) + sint (RecvWindowSize r) < 2 ^ 63
     \<and> on_packet r (example_data 0 3 [1, 2, 3]) AsapTimedOut GotAckSent = Inr (r', fx)
     \<and> NextFrameExpected r' = 2
     \<and> map AckNum (acks_sent fx) = [1]
     \<and> RecvHistory r' = [Some (example_data 0 3 [1, 2, 3]), Some (example_data 1 5 [4, 5])]
     \<and> map Received (Rxq r) = [False, True, False, True]
     \<and> map Received (Rxq r') = [False, False, False, True]
     \<and> Pack (Rxq r' ! 3) = Some (example_data 3 9 [8, 9])"
proof -
  let ?p = "example_data 0 3 [1, 2, 3]"
  let ?evs = "[MsgRecv (example_data 1 5 [4, 5]) AsapTimedOut GotAckSent,
               MsgRecv (example_data 3 9 [8, 9]) AsapTimedOut GotAckSent]"
  have "(case NewRecvState 4 100 ''B'' of
           Inl h \<Rightarrow> False
         | Inr r0 \<Rightarrow>
             (case run r0 ?evs of
                Inl h \<Rightarrow> False
              | Inr (r, fx0) \<Rightarrow>
                  SeqNum ?p = NextFrameExpected r
                  \<and> InWindow (SeqNum ?p) (NextFrameExpected r)
                       (NextFrameExpected r + RecvWindowSize r - 1)
                  \<and> \<not> isl (update_marks r ?p)
                  \<and> 0 \<le> sint (NextFrameExpected r)
                  \<and> sint (NextFrameExpected r) + sint (RecvWindowSize r) < 2 ^ 63
                  \<and> map Received (Rxq r) = [False, True, False, True]
                  \<and> (case on_packet r ?p AsapTimedOut GotAckSent of
                        Inl h \<Rightarrow> False
                      | Inr (r', fx) \<Rightarrow>
                          NextFrameExpected r' = 2 \<and> map AckNum (acks_sent fx) = [1]
                          \<and> RecvHistory r' = [Some ?p, Some (example_data 1 5 [4, 5])]
                          \<and> map Received (Rxq r') = [False, False, False, True]
                          \<and> Pack (Rxq r' ! 3) = Some (example_data 3 9 [8, 9]))))"
    by code_simp
  then obtain r0 r fx0 where a: "NewRecvState 4 100 ''B'' = Inr r0"
    and b: "run r0 ?evs = Inr (r, fx0)"
    and h: "SeqNum ?p = NextFrameExpected r"
      "InWindow (SeqNum ?p) (NextFrameExpected r) (NextFrameExpected r + RecvWindowSize r - 1)"
      "\<not> isl (update_marks r ?p)" "0 \<le> sint (NextFrameExpected r)"
      "sint (NextFrameExpected r) + sint (RecvWindowSize r) < 2 ^ 63"
      "map Received (Rxq r) = [False, True, False, True]"
    and c: "(case on_packet r ?p AsapTimedOut GotAckSent of
               Inl h \<Rightarrow> False
             | Inr (r', fx) \<Rightarrow>
                 NextFrameExpected r' = 2 \<and> map AckNum (acks_sent fx) = [1]
                 \<and> RecvHistory r' = [Some ?p, Some (example_data 1 5 [4, 5])]
                 \<and> map Received (Rxq r') = [False, False, False, True]
                 \<and> Pack (Rxq r' ! 3) = Some (example_data 3 9 [8, 9]))"
    by (auto split: sum.splits)
  have d: "\<not> AckOnly ?p" "\<not> KeepAlive ?p"
    by (simp_all add: example_data_def zero_Packet_def)
  from next_frame_delivers_run [OF a b d h(1) h(2) _ _ h(3) h(4) h(5),
      of AsapTimedOut GotAckSent]
  obtain r' fx where "on_packet r ?p AsapTimedOut GotAckSent = Inr (r', fx)"
    by auto
  with c a b h show ?thesis by auto
qed

text \<open>
  Claim C8, as stated, fails: the keep-alive branch comes after the two assertions on
  \<open>CumulBytesTransmitted\<close> and after the two inner \<open>select\<close> statements. A receiver that
  has taken data packet 0 (3 bytes transmitted in all) gets a keep-alive with
  \<open>CumulBytesTransmitted = 5\<close>: the keep-alive carries the zero \<open>SeqNum\<close>, which is not
  above \<open>LargestSeqnoRcvd\<close>, so the second assertion panics and no ack is sent. A
  keep-alive with the byte count 3 that arrives while the session stops ends the loop
  without an ack too.
\<close>

theorem keep_alive_counterexample:
  "(case NewRecvState 4 100 ''B'' of
      Inl h \<Rightarrow> False
    | Inr r0 \<Rightarrow>
        (case run r0 [MsgRecv (example_data 0 3 [1, 2, 3]) AsapTimedOut GotAckSent] of
           Inl h \<Rightarrow> False
         | Inr (r, fx0) \<Rightarrow>
             KeepAlive (example_keep_alive 5) \<and> \<not> AckOnly (example_keep_alive 5)
             \<and> on_packet r (example_keep_alive 5) AsapTimedOut GotAckSent
                 = Inl PanicCumulOrder
             \<and> on_packet r (example_keep_alive 3) AsapTimedOut GotAckStop = Inl Stopped))"
  by code_simp

text \<open>
  Claim C8, amended. A packet with \<open>KeepAlive\<close> set and \<open>AckOnly\<close> clear that gets to the
  keep-alive branch (no shutdown branch is taken and both assertions on
  \<open>CumulBytesTransmitted\<close> pass) makes the receiver send one ack with
  \<open>AckNum = NextFrameExpected - 1\<close> to its sender, and leaves \<open>NextFrameExpected\<close>, the
  slots of \<open>Rxq\<close>, \<open>RcvdButNotConsumed\<close>, \<open>ReadyForDelivery\<close> and \<open>RecvHistory\<close> as they
  were.
\<close>

theorem keep_alive_only_acks:
  assumes ka: "KeepAlive pack" "\<not> AckOnly pack"
    and nostop: "ac \<noteq> AsapStop" "gc = GotAckSent"
    and marks: "\<not> isl (update_marks r pack)"
  shows "\<exists>r' fx.
      on_packet r pack ac gc = Inr (r', fx)
      \<and> acks_sent fx =
          [zero_Packet\<lparr>From := Inbox r, Dest := From pack, SeqNum := - 99,
                       AckNum := NextFrameExpected r - 1, AckOnly := True,
                       AvailReaderBytesCap := LastAvailReaderBytesCap r',
                       AvailReaderMsgCap := LastAvailReaderMsgCap r'\<rparr>]
      \<and> NextFrameExpected r' = NextFrameExpected r \<and> Rxq r' = Rxq r
      \<and> RcvdButNotConsumed r' = RcvdButNotConsumed r
      \<and> ReadyForDelivery r' = ReadyForDelivery r \<and> RecvHistory r' = RecvHistory r"
proof -
  obtain r1 where r1: "update_marks r pack = Inr r1"
    using marks by (cases "update_marks r pack") auto
  obtain fx0 where a: "offer_asap r pack ac = Inr fx0"
    using offer_asap_no_stop [OF nostop(1)] by blast
  have ax: "acks_sent fx0 = []"
    using a by (auto simp: offer_asap_def split: if_splits asap_choice.splits)
  let ?r2 = "fst (UpdateFlowControl r1)"
  let ?a = "ack ?r2 (NextFrameExpected ?r2 - 1) (From pack)"
  have op: "on_packet r pack ac gc
      = Inr (fst ?a, fx0 @ snd (UpdateFlowControl r1) @
          [GotAck \<lparr>OnlyUpdateFlowCtrl = \<not> AckOnly pack, as_AckNum = AckNum pack,
                   AckCameWithPacket = SeqNum pack,
                   as_AvailReaderBytesCap = AvailReaderBytesCap pack,
                   as_AvailReaderMsgCap = AvailReaderMsgCap pack\<rparr>] @ snd ?a)"
    using ka nostop r1 a by (simp add: on_packet_def Let_def case_prod_beta)
  have caps: "LastAvailReaderBytesCap (fst ?a) = LastAvailReaderBytesCap (fst (UpdateFlowControl ?r2))"
    "LastAvailReaderMsgCap (fst ?a) = LastAvailReaderMsgCap (fst (UpdateFlowControl ?r2))"
    by (simp_all add: ack_fst)
  show ?thesis
    using op ax caps update_marks_frame [OF r1]
    by (simp add: acks_sent_append ack_acks_sent)
qed

theorem keep_alive_only_acks_witness:
  "\<exists>r0 r' fx.
     NewRecvState 4 100 ''B'' = Inr r0
     \<and> KeepAlive (example_keep_alive 0) \<and> \<not> AckOnly (example_keep_alive 0)
     \<and> \<not> isl (update_marks r0 (example_keep_alive 0))
     \<and> on_packet r0 (example_keep_alive 0) AsapTimedOut GotAckSent = Inr (r', fx)
     \<and> map AckNum (acks_sent fx) = [- 1] \<and> map Dest (acks_sent fx) = [''A'']
     \<and> NextFrameExpected r' = NextFrameExpected r0 \<and> Rxq r' = Rxq r0"
proof -
  have "(case NewRecvState 4 100 ''B'' of
           Inl h \<Rightarrow> False
         | Inr r0 \<Rightarrow> \<not> isl (update_marks r0 (example_keep_alive 0))
             \<and> NextFrameExpected r0 = 0)"
    by code_simp
  then obtain r0 where a: "NewRecvState 4 100 ''B'' = Inr r0"
    and m: "\<not> isl (update_marks r0 (example_keep_alive 0))" and n: "NextFrameExpected r0 = 0"
    by (auto split: sum.splits)
  have k: "KeepAlive (example_keep_alive 0)" "\<not> AckOnly (example_keep_alive 0)"
    "From (example_keep_alive 0) = ''A''"
    by (simp_all add: example_keep_alive_def zero_Packet_def)
  from keep_alive_only_acks [OF k(1) k(2) _ _ m, of AsapTimedOut GotAckSent]
  show ?thesis using a k m n by auto
qed

text \<open>
  A data packet outside the window whose slot can be fetched is counted, acked with
  \<open>NextFrameExpected - 1\<close> and dropped; no slot and not \<open>NextFrameExpected\<close> changes.
\<close>

lemma out_of_window_discards:
  assumes data: "\<not> AckOnly pack" "\<not> KeepAlive pack"
    and out: "\<not> InWindow (SeqNum pack) (NextFrameExpected r)
                (NextFrameExpected r + RecvWindowSize r - 1)"
    and nostop: "ac \<noteq> AsapStop" "gc = GotAckSent"
    and marks: "\<not> isl (update_marks r pack)"
    and slot: "\<not> isl (rxq_index r (SeqNum pack))"
  shows "\<exists>r' fx.
      on_packet r pack ac gc = Inr (r', fx)
      \<and> DiscardCount r' = DiscardCount r + 1
      \<and> Rxq r' = Rxq r \<and> NextFrameExpected r' = NextFrameExpected r
      \<and> acks_sent fx =
          [zero_Packet\<lparr>From := Inbox r, Dest := From pack, SeqNum := - 99,
                       AckNum := NextFrameExpected r - 1, AckOnly := True,
                       AvailReaderBytesCap := LastAvailReaderBytesCap r',
                       AvailReaderMsgCap := LastAvailReaderMsgCap r'\<rparr>]"
proof -
  obtain r1 where r1: "update_marks r pack = Inr r1"
    using marks by (cases "update_marks r pack") auto
  note f1 = update_marks_frame [OF r1]
  let ?r2 = "hold (fst (UpdateFlowControl r1)) pack"
  have "rxq_index ?r2 (SeqNum pack) = rxq_index r (SeqNum pack)"
    by (rule rxq_index_cong) (simp_all add: f1)
  then obtain i where i: "rxq_index ?r2 (SeqNum pack) = Inr i"
    using slot by (cases "rxq_index r (SeqNum pack)") auto
  let ?d = "discard ?r2 pack"
  have acc: "accept_data (fst (UpdateFlowControl r1)) pack = Inr (fst ?d, snd ?d)"
    using i out f1 by (simp add: accept_data_def Let_def)
  obtain fx where op: "on_packet r pack ac gc = Inr (fst ?d, fx)"
    and ak: "acks_sent fx = acks_sent (snd ?d)"
    using on_packet_data [OF data nostop r1 acc] by blast
  have caps: "LastAvailReaderBytesCap (fst ?d)
        = LastAvailReaderBytesCap (fst (UpdateFlowControl (?r2\<lparr>DiscardCount := DiscardCount ?r2 + 1\<rparr>)))"
    "LastAvailReaderMsgCap (fst ?d)
        = LastAvailReaderMsgCap (fst (UpdateFlowControl (?r2\<lparr>DiscardCount := DiscardCount ?r2 + 1\<rparr>)))"
    by (simp_all add: discard_def ack_fst)
  show ?thesis
    using op ak caps f1
    by (simp add: discard_def ack_acks_sent)
qed

text \<open>
  Claim C3. The slot \<open>r.Rxq[pack.SeqNum % r.RecvWindowSize]\<close> is fetched before the window
  test, and Go's \<open>%\<close> keeps the sign of the dividend: a data packet with \<open>SeqNum = -1\<close>,
  which lies outside the window \<open>[0, 3]\<close> of a fresh receiver, makes the loop panic on the
  index \<open>-1\<close> instead of being counted and acked.
\<close>

theorem negative_SeqNum_panics_on_slot_fetch:
  "(case NewRecvState 4 100 ''B'' of
      Inl h \<Rightarrow> False
    | Inr r0 \<Rightarrow>
        \<not> InWindow (SeqNum (example_data (- 1) 0 [])) (NextFrameExpected r0)
            (NextFrameExpected r0 + RecvWindowSize r0 - 1)
        \<and> on_packet r0 (example_data (- 1) 0 []) AsapTimedOut GotAckSent
            = Inl PanicIndexOutOfRange)"
  by code_simp

section \<open>The assertions on CumulBytesTransmitted\<close>

lemma update_marks_grows:
  assumes "update_marks r pack = Inr r1"
  shows "LargestSeqnoRcvd r \<le>s LargestSeqnoRcvd r1 \<and> MaxCumulBytesTrans r \<le>s MaxCumulBytesTrans r1"
  using assms
  by (auto simp: update_marks_def word_sle_eq word_sless_alt split: if_splits)

lemma update_marks_Inl:
  "update_marks r pack = Inl h \<Longrightarrow> h = PanicCumulBelowMax \<or> h = PanicCumulOrder"
  by (auto simp: update_marks_def split: if_splits)

lemma rxq_index_Inl:
  "rxq_index r s = Inl h \<Longrightarrow> h = PanicDivideByZero \<or> h = PanicIndexOutOfRange"
  by (auto simp: rxq_index_def Let_def split: if_splits)

lemma deliver_loop_Inl:
  "deliver_loop r i = Inl h \<Longrightarrow> h = PanicDivideByZero \<or> h = PanicIndexOutOfRange"
proof (induction r i rule: deliver_loop.induct)
  case (1 r i)
  show ?case
  proof (cases "i < length (Rxq r) \<and> Received (Rxq r ! i)")
    case False
    then have "deliver_loop r i = Inr r" by (rule deliver_loop_stop)
    then show ?thesis using "1.prems" by simp
  next
    case True
    show ?thesis
    proof (cases "rxq_index (deliver_slot r i) (NextFrameExpected (deliver_slot r i))")
      case (Inl e)
      then have "deliver_loop r i = Inl e" using True by (simp add: deliver_loop_step)
      then show ?thesis using "1.prems" rxq_index_Inl [OF Inl] by simp
    next
      case (Inr j)
      then have "deliver_loop r i = deliver_loop (deliver_slot r i) j"
        using True by (simp add: deliver_loop_step)
      then show ?thesis using "1.IH" [OF True Inr] "1.prems" by simp
    qed
  qed
qed

lemma accept_data_Inl:
  "accept_data r pack = Inl h \<Longrightarrow> h = PanicDivideByZero \<or> h = PanicIndexOutOfRange"
  by (auto simp: accept_data_def Let_def split: sum.splits if_splits
      dest: rxq_index_Inl deliver_loop_Inl)

lemma on_packet_Inl:
  assumes "on_packet r pack ac gc = Inl h"
  shows "h = Stopped \<or> update_marks r pack = Inl h
         \<or> h = PanicDivideByZero \<or> h = PanicIndexOutOfRange"
  using assms
  by (auto simp: on_packet_def offer_asap_def Let_def case_prod_beta
      split: sum.splits if_splits asap_choice.splits gotack_choice.splits
      dest: accept_data_Inl)

lemma accept_data_marks:
  assumes "accept_data r pack = Inr (r', fx)"
  shows "LargestSeqnoRcvd r' = LargestSeqnoRcvd r \<and> MaxCumulBytesTrans r' = MaxCumulBytesTrans r"
  using assms
proof (cases rule: accept_data_cases)
  case (Discard i)
  then have "r' = fst (discard (hold r pack) pack)" by (metis fst_conv)
  then show ?thesis by simp
next
  case (Stored i)
  then show ?thesis by simp
next
  case (Delivered i r3)
  have "r' = fst (ack r3 (NextFrameExpected r3 - 1) (From pack))"
    using Delivered(5) by (metis fst_conv)
  then show ?thesis using deliver_loop_frame [OF Delivered(4)] by simp
qed

lemma on_packet_marks:
  assumes "on_packet r pack ac gc = Inr (r', fx)"
  shows "\<exists>r1. update_marks r pack = Inr r1
    \<and> LargestSeqnoRcvd r' = LargestSeqnoRcvd r1 \<and> MaxCumulBytesTrans r' = MaxCumulBytesTrans r1"
  using assms
proof (cases rule: on_packet_cases)
  case (AckOnly fx0 r1)
  then show ?thesis by simp
next
  case (KeepAlive fx0 r1)
  then show ?thesis by simp
next
  case (Data fx0 r1 fx3)
  then show ?thesis using accept_data_marks [OF Data(6)] by simp
qed

lemma recvloop_marks_grow:
  assumes "recvloop r e = Inr (r', fx)"
  shows "LargestSeqnoRcvd r \<le>s LargestSeqnoRcvd r' \<and> MaxCumulBytesTrans r \<le>s MaxCumulBytesTrans r'"
proof (cases e)
  case (SetAsapHelper h)
  then show ?thesis using assms by auto
next
  case HeldQuery
  then show ?thesis using assms by auto
next
  case Deliver
  then show ?thesis using assms deliver_to_consumer_frame [of r r' fx] by simp
next
  case ReqStop
  then show ?thesis using assms by simp
next
  case (MsgRecv pack ac gc)
  then have "on_packet r pack ac gc = Inr (r', fx)" using assms by simp
  from on_packet_marks [OF this] show ?thesis using update_marks_grows by auto
qed

lemma run_marks_grow:
  "run r evs = Inr (r', fx) \<Longrightarrow>
   LargestSeqnoRcvd r \<le>s LargestSeqnoRcvd r' \<and> MaxCumulBytesTrans r \<le>s MaxCumulBytesTrans r'"
proof (induction evs arbitrary: r fx)
  case Nil
  then show ?case by simp
next
  case (Cons e evs)
  from Cons.prems obtain r1 fx1 fx2 where
    st: "recvloop r e = Inr (r1, fx1)" and rest: "run r1 evs = Inr (r', fx2)"
    by (auto split: sum.splits prod.splits)
  from recvloop_marks_grow [OF st] Cons.IH [OF rest]
  show ?case by (meson signed.order_trans)
qed

lemma run_append_Inl: "run r evs = Inl h \<Longrightarrow> run r (evs @ rest) = Inl h"
proof (induction evs arbitrary: r)
  case Nil
  then show ?case by simp
next
  case (Cons e evs)
  then show ?case by (auto split: sum.splits prod.splits)
qed

lemma consume_Inl: "consume r ps = Inl h \<Longrightarrow> h = PanicNilPacket"
  by (induction r ps rule: consume.induct) auto

lemma deliver_to_consumer_Inl:
  "deliver_to_consumer r = Inl h \<Longrightarrow> h = NotEnabled \<or> h = PanicNilPacket"
  by (auto simp: deliver_to_consumer_def split: list.splits option.splits sum.splits
      dest: consume_Inl)

lemma update_marks_on_monotone:
  assumes cur: "(LargestSeqnoRcvd r, MaxCumulBytesTrans r) \<in> T"
    and p: "marks_of pack \<in> T"
    and mono: "\<forall>(s, c) \<in> T. \<forall>(s', c') \<in> T. s \<le>s s' \<longrightarrow> c \<le>s c'"
  shows "\<exists>r1. update_marks r pack = Inr r1
    \<and> (LargestSeqnoRcvd r1, MaxCumulBytesTrans r1) \<in> T"
proof (cases "LargestSeqnoRcvd r <s SeqNum pack")
  case True
  then have "LargestSeqnoRcvd r \<le>s SeqNum pack" by (simp add: word_sle_eq word_sless_alt)
  then have "MaxCumulBytesTrans r \<le>s CumulBytesTransmitted pack"
    using mono cur p by (auto simp: marks_of_def)
  then have "\<not> CumulBytesTransmitted pack <s MaxCumulBytesTrans r"
    by (simp add: word_sle_eq word_sless_alt)
  then show ?thesis
    using True p by (simp add: update_marks_def marks_of_def)
next
  case False
  then have le: "SeqNum pack \<le>s LargestSeqnoRcvd r" by (simp add: word_sle_eq word_sless_alt)
  then have "CumulBytesTransmitted pack \<le>s MaxCumulBytesTrans r"
    using mono cur p by (auto simp: marks_of_def)
  then have "\<not> MaxCumulBytesTrans r <s CumulBytesTransmitted pack"
    by (simp add: word_sle_eq word_sless_alt)
  then show ?thesis
    using False cur by (simp add: update_marks_def)
qed

lemma recvloop_on_monotone:
  assumes cur: "(LargestSeqnoRcvd r, MaxCumulBytesTrans r) \<in> T"
    and p: "marks_of ` set (packets_of [e]) \<subseteq> T"
    and mono: "\<forall>(s, c) \<in> T. \<forall>(s', c') \<in> T. s \<le>s s' \<longrightarrow> c \<le>s c'"
  shows "recvloop r e \<noteq> Inl PanicCumulBelowMax \<and> recvloop r e \<noteq> Inl PanicCumulOrder
    \<and> (\<forall>r' fx. recvloop r e = Inr (r', fx) \<longrightarrow>
          (LargestSeqnoRcvd r', MaxCumulBytesTrans r') \<in> T)"
proof (cases e)
  case (SetAsapHelper h)
  then show ?thesis using cur by auto
next
  case HeldQuery
  then show ?thesis using cur by auto
next
  case Deliver
  then show ?thesis
    using cur deliver_to_consumer_Inl [of r] deliver_to_consumer_frame(7,8) [of r]
    by auto
next
  case ReqStop
  then show ?thesis by simp
next
  case (MsgRecv pack ac gc)
  then have "marks_of pack \<in> T" using p by simp
  from update_marks_on_monotone [OF cur this mono] obtain r1 where
    r1: "update_marks r pack = Inr r1" "(LargestSeqnoRcvd r1, MaxCumulBytesTrans r1) \<in> T"
    by blast
  have "on_packet r pack ac gc \<noteq> Inl PanicCumulBelowMax
      \<and> on_packet r pack ac gc \<noteq> Inl PanicCumulOrder"
    using on_packet_Inl [of r pack ac gc] r1(1) by auto
  moreover have "(LargestSeqnoRcvd r', MaxCumulBytesTrans r') \<in> T"
    if "on_packet r pack ac gc = Inr (r', fx)" for r' fx
    using on_packet_marks [OF that] r1 by auto
  ultimately show ?thesis using MsgRecv by simp
qed

lemma packets_of_Cons: "set (packets_of (e # evs)) = set (packets_of [e]) \<union> set (packets_of evs)"
  by (cases e) auto

lemma run_on_monotone:
  "(LargestSeqnoRcvd r, MaxCumulBytesTrans r) \<in> T \<Longrightarrow>
   marks_of ` set (packets_of evs) \<subseteq> T \<Longrightarrow>
   \<forall>(s, c) \<in> T. \<forall>(s', c') \<in> T. s \<le>s s' \<longrightarrow> c \<le>s c' \<Longrightarrow>
   run r evs \<noteq> Inl PanicCumulBelowMax \<and> run r evs \<noteq> Inl PanicCumulOrder"
proof (induction evs arbitrary: r)
  case Nil
  then show ?case by simp
next
  case (Cons e evs)
  have p1: "marks_of ` set (packets_of [e]) \<subseteq> T" and p2: "marks_of ` set (packets_of evs) \<subseteq> T"
    using Cons.prems(2) packets_of_Cons [of e evs] by auto
  note st = recvloop_on_monotone [OF Cons.prems(1) p1 Cons.prems(3)]
  show ?case
  proof (cases "recvloop r e")
    case (Inl h)
    then show ?thesis using st by auto
  next
    case (Inr a)
    obtain r1 fx1 where a: "a = (r1, fx1)" by (cases a)
    have "(LargestSeqnoRcvd r1, MaxCumulBytesTrans r1) \<in> T" using st Inr a by simp
    from Cons.IH [OF this p2 Cons.prems(3)] show ?thesis
      using Inr a by (auto split: sum.splits)
  qed
qed

lemma run_append:
  "run r (xs @ ys) =
     (case run r xs of
        Inl h \<Rightarrow> Inl h
      | Inr (r1, fx1) \<Rightarrow>
          (case run r1 ys of
             Inl h \<Rightarrow> Inl h
           | Inr (r2, fx2) \<Rightarrow> Inr (r2, fx1 @ fx2)))"
  by (induction xs arbitrary: r) (auto split: sum.splits prod.splits)

lemma on_packet_assertion_fails:
  assumes "update_marks r pack = Inl h" "ac \<noteq> AsapStop"
  shows "on_packet r pack ac gc = Inl h"
proof -
  obtain fx0 where "offer_asap r pack ac = Inr fx0"
    using offer_asap_no_stop [OF assms(2)] by blast
  then show ?thesis using assms(1) by (simp add: on_packet_def)
qed

lemma run_assertion_fatal:
  assumes "run r0 evs = Inr (r1, fx1)" "update_marks r1 pack = Inl h" "ac \<noteq> AsapStop"
  shows "run r0 (evs @ MsgRecv pack ac gc # rest) = Inl h"
  using assms on_packet_assertion_fails [OF assms(2) assms(3), of gc]
  by (simp add: run_append)

text \<open>
  Claim C6, as stated, fails, in both directions. The stream of one ack-only packet with
  \<open>SeqNum = -99\<close> and \<open>CumulBytesTransmitted = 5\<close> is non-decreasing in \<open>SeqNum\<close> order,
  and a fresh receiver panics on it in the second assertion, because its marks start at
  \<open>LargestSeqnoRcvd = -1\<close> and \<open>MaxCumulBytesTrans = 0\<close>. And a stream that breaks the
  monotonicity need not be fatal: the assertions compare a packet with the two marks
  only, so the data packets 2 (10 bytes transmitted in all), 0 (2 bytes) and 1 (1 byte),
  where packet 1 carries less than packet 0, pass and the loop goes on.
\<close>

theorem monotone_stream_counterexample:
  "cumul_nondecreasing
     (map marks_of (packets_of [MsgRecv (example_ack 5) AsapTimedOut GotAckSent]))
   \<and> (case NewRecvState 4 100 ''B'' of
         Inl h \<Rightarrow> False
       | Inr r0 \<Rightarrow>
           run r0 [MsgRecv (example_ack 5) AsapTimedOut GotAckSent] = Inl PanicCumulOrder)
   \<and> \<not> cumul_nondecreasing
         (map marks_of (packets_of
            [MsgRecv (example_data 2 10 [1]) AsapTimedOut GotAckSent,
             MsgRecv (example_data 0 2 [1, 2]) AsapTimedOut GotAckSent,
             MsgRecv (example_data 1 1 [1]) AsapTimedOut GotAckSent]))
   \<and> (case NewRecvState 4 100 ''B'' of
         Inl h \<Rightarrow> False
       | Inr r0 \<Rightarrow>
           \<not> isl (run r0 [MsgRecv (example_data 2 10 [1]) AsapTimedOut GotAckSent,
                          MsgRecv (example_data 0 2 [1, 2]) AsapTimedOut GotAckSent,
                          MsgRecv (example_data 1 1 [1]) AsapTimedOut GotAckSent]))"
  by code_simp

text \<open>
  Claim C6, amended. Start from a fresh receiver and count its initial marks,
  \<open>LargestSeqnoRcvd = -1\<close> with \<open>MaxCumulBytesTrans = 0\<close>, as the first packet of the
  stream. For every incoming stream in which \<open>CumulBytesTransmitted\<close> is then
  non-decreasing in \<open>SeqNum\<close> order, neither of the two assertions fires. On every
  stream, over any part of a trace that the loop survives, \<open>LargestSeqnoRcvd\<close> and
  \<open>MaxCumulBytesTrans\<close> do not decrease. A failed assertion is fatal on every stream:
  when a packet that is not cut short by the shutdown fails an assertion in the state
  reached, the loop ends with that panic whatever arrives afterwards, and a loop that
  has ended stays ended.
\<close>

theorem assertions_pass_on_monotone_stream:
  assumes fresh: "NewRecvState recvSz recvSzBytes inbox = Inr r0"
  shows "(cumul_nondecreasing ((- 1, 0) # map marks_of (packets_of evs)) \<longrightarrow>
           run r0 evs \<noteq> Inl PanicCumulBelowMax \<and> run r0 evs \<noteq> Inl PanicCumulOrder)
    \<and> (\<forall>evs1 evs2 r1 fx1 r2 fx2.
          evs = evs1 @ evs2 \<longrightarrow> run r0 evs1 = Inr (r1, fx1) \<longrightarrow> run r1 evs2 = Inr (r2, fx2) \<longrightarrow>
          LargestSeqnoRcvd r1 \<le>s LargestSeqnoRcvd r2
          \<and> MaxCumulBytesTrans r1 \<le>s MaxCumulBytesTrans r2)
    \<and> (\<forall>r1 fx1 pack ac gc h rest.
          run r0 evs = Inr (r1, fx1) \<longrightarrow> update_marks r1 pack = Inl h \<longrightarrow> ac \<noteq> AsapStop \<longrightarrow>
          (h = PanicCumulBelowMax \<or> h = PanicCumulOrder)
          \<and> run r0 (evs @ MsgRecv pack ac gc # rest) = Inl h)
    \<and> (\<forall>h rest. run r0 evs = Inl h \<longrightarrow> run r0 (evs @ rest) = Inl h)"
proof -
  let ?T = "set ((- 1, 0) # map marks_of (packets_of evs))"
  have cur: "(LargestSeqnoRcvd r0, MaxCumulBytesTrans r0) \<in> ?T"
    using fresh by (auto simp: NewRecvState_def split: if_splits)
  have sub: "marks_of ` set (packets_of evs) \<subseteq> ?T" by auto
  have a: "cumul_nondecreasing ((- 1, 0) # map marks_of (packets_of evs)) \<longrightarrow>
           run r0 evs \<noteq> Inl PanicCumulBelowMax \<and> run r0 evs \<noteq> Inl PanicCumulOrder"
  proof
    assume "cumul_nondecreasing ((- 1, 0) # map marks_of (packets_of evs))"
    then have m: "\<forall>(s, c) \<in> ?T. \<forall>(s', c') \<in> ?T. s \<le>s s' \<longrightarrow> c \<le>s c'"
      unfolding cumul_nondecreasing_def .
    show "run r0 evs \<noteq> Inl PanicCumulBelowMax \<and> run r0 evs \<noteq> Inl PanicCumulOrder"
      using run_on_monotone [OF cur sub m] .
  qed
  have b: "\<forall>evs1 evs2 r1 fx1 r2 fx2.
          evs = evs1 @ evs2 \<longrightarrow> run r0 evs1 = Inr (r1, fx1) \<longrightarrow> run r1 evs2 = Inr (r2, fx2) \<longrightarrow>
          LargestSeqnoRcvd r1 \<le>s LargestSeqnoRcvd r2
          \<and> MaxCumulBytesTrans r1 \<le>s MaxCumulBytesTrans r2"
    using run_marks_grow by blast
  have c: "\<forall>r1 fx1 pack ac gc h rest.
          run r0 evs = Inr (r1, fx1) \<longrightarrow> update_marks r1 pack = Inl h \<longrightarrow> ac \<noteq> AsapStop \<longrightarrow>
          (h = PanicCumulBelowMax \<or> h = PanicCumulOrder)
          \<and> run r0 (evs @ MsgRecv pack ac gc # rest) = Inl h"
    using run_assertion_fatal update_marks_Inl by blast
  have d: "\<forall>h rest. run r0 evs = Inl h \<longrightarrow> run r0 (evs @ rest) = Inl h"
    using run_append_Inl by blast
  show ?thesis
    by (intro conjI) (rule a b c d)+
qed

theorem assertions_pass_on_monotone_stream_witness:
  "\<exists>r0 r1 fx1.
     NewRecvState 4 100 ''B'' = Inr r0
     \<and> cumul_nondecreasing
         ((- 1, 0) # map marks_of (packets_of
            [MsgRecv (example_data 1 5 [4, 5]) AsapTimedOut GotAckSent,
             MsgRecv (example_data 0 3 [1, 2, 3]) AsapTimedOut GotAckSent,
             MsgRecv (example_ack 0) AsapTimedOut GotAckSent]))
     \<and> run r0 [MsgRecv (example_data 1 5 [4, 5]) AsapTimedOut GotAckSent,
               MsgRecv (example_data 0 3 [1, 2, 3]) AsapTimedOut GotAckSent,
               MsgRecv (example_ack 0) AsapTimedOut GotAckSent] = Inr (r1, fx1)
     \<and> update_marks r1 (example_ack 9) = Inl PanicCumulOrder
     \<and> run r0 ([MsgRecv (example_data 1 5 [4, 5]) AsapTimedOut GotAckSent,
                MsgRecv (example_data 0 3 [1, 2, 3]) AsapTimedOut GotAckSent,
                MsgRecv (example_ack 0) AsapTimedOut GotAckSent]
               @ MsgRecv (example_ack 9) AsapTimedOut GotAckSent
               # [MsgRecv (example_ack 0) AsapTimedOut GotAckSent]) = Inl PanicCumulOrder"
proof -
  let ?evs = "[MsgRecv (example_data 1 5 [4, 5]) AsapTimedOut GotAckSent,
               MsgRecv (example_data 0 3 [1, 2, 3]) AsapTimedOut GotAckSent,
               MsgRecv (example_ack 0) AsapTimedOut GotAckSent]"
  have m: "cumul_nondecreasing ((- 1, 0) # map marks_of (packets_of ?evs))"
    by code_simp
  have "(case NewRecvState 4 100 ''B'' of
           Inl h \<Rightarrow> False
         | Inr r0 \<Rightarrow>
             (case run r0 ?evs of
                Inl h \<Rightarrow> False
              | Inr (r1, fx1) \<Rightarrow> update_marks r1 (example_ack 9) = Inl PanicCumulOrder))"
    by code_simp
  then obtain r0 r1 fx1 where a: "NewRecvState 4 100 ''B'' = Inr r0"
    and b: "run r0 ?evs = Inr (r1, fx1)"
    and u: "update_marks r1 (example_ack 9) = Inl PanicCumulOrder"
    by (auto split: sum.splits)
  note t = assertions_pass_on_monotone_stream [OF a, of ?evs]
  have ne: "AsapTimedOut \<noteq> AsapStop" by simp
  have f: "run r0 (?evs @ MsgRecv (example_ack 9) AsapTimedOut GotAckSent
               # [MsgRecv (example_ack 0) AsapTimedOut GotAckSent]) = Inl PanicCumulOrder"
    using t [THEN conjunct2, THEN conjunct2, THEN conjunct1, rule_format, OF b u ne]
    by blast
  from a m b u f show ?thesis by blast
qed

end
